theory Spec2Isabelle
  imports Complex_Main
begin

section \<open>Monte Carlo prediction and Monte Carlo exploring starts\<close>

text \<open>
  A shallow embedding of the two notebooks \<^verbatim>\<open>1-monte-carlo-prediction\<close> and
  \<^verbatim>\<open>2-monte-carlo-exploring-starts\<close>.

  Conventions of the model.
  \<^item> Python floats are modelled by exact reals: rounding is not modelled.
  \<^item> Every call of \<^verbatim>\<open>np.random\<close> reads its outcome from an explicit input: a list of
    natural numbers (one per call of \<^verbatim>\<open>np.random.choice\<close>, used as an index) and, for
    \<^verbatim>\<open>np.random.sample(3)\<close>, a triple of reals. A loop that needs a draw when the list
    is empty stops with \<open>OutOfDraws\<close>, so the list also bounds the running time.
  \<^item> Exceptions are values: a result is \<open>Inl e\<close> for a raised exception \<open>e\<close>.
  \<^item> The class \<^verbatim>\<open>GridWorld\<close> is imported by the notebooks from a module that is not part
    of the sources; the environment is a parameter of the model (a record with the
    attributes the notebooks read).
\<close>

subsection \<open>Errors and the environment\<close>

datatype error = TypeError | ValueError | KeyError | IndexError | OutOfDraws

definition err_bind :: "error + 'a \<Rightarrow> ('a \<Rightarrow> error + 'b) \<Rightarrow> error + 'b" where
  "err_bind m f = (case m of Inl e \<Rightarrow> Inl e | Inr x \<Rightarrow> f x)"

text \<open>
  The attributes of the environment object that the notebooks use: \<^verbatim>\<open>env.states\<close>,
  \<^verbatim>\<open>env.actions\<close>, \<^verbatim>\<open>env.transitions\<close>, \<^verbatim>\<open>env.gamma\<close> and the method
  \<^verbatim>\<open>state_transition\<close>. The notebooks call the method on the global \<^verbatim>\<open>gw\<close>, which is
  the object they also pass as \<^verbatim>\<open>env\<close>.
\<close>

record env =
  states :: "int list"
  actions :: "string list"
  transitions :: "(int \<times> string \<times> int \<times> real) list"
  gamma :: real
  state_transition :: "int \<Rightarrow> string \<Rightarrow> int \<times> real"

type_synonym policy = "int \<rightharpoonup> (string list \<times> real list)"
type_synonym qtable = "(int \<times> string) \<rightharpoonup> real"
type_synonym state_episode = "(int \<times> real) list"
type_synonym episode = "(int \<times> string \<times> real) list"

subsection \<open>The numpy and list primitives the notebooks call\<close>

text \<open>\<^verbatim>\<open>np.argmax\<close>: the index of the first maximal entry; \<^verbatim>\<open>ValueError\<close> on an empty
  sequence.\<close>

fun argmax_from :: "real list \<Rightarrow> nat \<Rightarrow> nat \<Rightarrow> real \<Rightarrow> nat" where
  "argmax_from [] i best v = best"
| "argmax_from (x # xs) i best v =
     (if v < x then argmax_from xs (Suc i) i x else argmax_from xs (Suc i) best v)"

definition np_argmax :: "real list \<Rightarrow> error + nat" where
  "np_argmax xs =
     (case xs of [] \<Rightarrow> Inl ValueError | x # rest \<Rightarrow> Inr (argmax_from rest 1 0 x))"

text \<open>\<^verbatim>\<open>np.delete(np.arange(4), m)\<close>: the indices 0..3 without \<open>m\<close>; an index outside
  0..3 is out of bounds.\<close>

definition np_delete_arange4 :: "nat \<Rightarrow> error + nat list" where
  "np_delete_arange4 m =
     (if m < 4 then Inr (filter (\<lambda>i. i \<noteq> m) [0, 1, 2, 3]) else Inl IndexError)"

text \<open>\<^verbatim>\<open>np.random.choice(xs)\<close>: the draw \<open>d\<close> selects an element of \<open>xs\<close>; every
  element can be selected and nothing else can. An empty \<open>xs\<close> raises \<^verbatim>\<open>ValueError\<close>.\<close>

definition choice :: "'a list \<Rightarrow> nat \<Rightarrow> error + 'a" where
  "choice xs d = (if xs = [] then Inl ValueError else Inr (xs ! (d mod length xs)))"

text \<open>
  \<^verbatim>\<open>np.random.choice(xs, p = pr)\<close>: numpy raises \<^verbatim>\<open>ValueError\<close> when \<open>xs\<close> is empty, when
  the sizes differ, when a probability is negative and when the probabilities do not sum
  to 1 within \<open>atol\<close> (the square root of the float64 machine epsilon). Otherwise an
  entry of positive probability is selected: the draw \<open>d\<close> picks one of the indices of
  positive probability, of which there is at least one since the sum exceeds 0.
\<close>

definition atol :: real where
  "atol = 1 / 2 ^ 26"

definition choice_p :: "'a list \<Rightarrow> real list \<Rightarrow> nat \<Rightarrow> error + 'a" where
  "choice_p xs pr d =
     (if xs = [] \<or> length pr \<noteq> length xs \<or> (\<exists>q\<in>set pr. q < 0) \<or> atol < \<bar>sum_list pr - 1\<bar>
      then Inl ValueError
      else let cand = filter (\<lambda>i. 0 < pr ! i) [0..<length pr]
           in Inr (xs ! (cand ! (d mod length cand))))"

text \<open>\<^verbatim>\<open>pr[i] += x\<close> on a Python list, for an index \<open>i\<close> that is not negative.\<close>

definition add_at :: "real list \<Rightarrow> nat \<Rightarrow> real \<Rightarrow> error + real list" where
  "add_at pr i x = (if i < length pr then Inr (pr[i := pr ! i + x]) else Inl IndexError)"

text \<open>\<^verbatim>\<open>values[i] = v\<close> on a numpy array: a negative index counts from the end.\<close>

definition np_set :: "real list \<Rightarrow> int \<Rightarrow> real \<Rightarrow> error + real list" where
  "np_set xs i v =
     (let n = int (length xs)
      in if 0 \<le> i \<and> i < n then Inr (xs[nat i := v])
         else if - n \<le> i \<and> i < 0 then Inr (xs[nat (n + i) := v])
         else Inl IndexError)"

text \<open>\<^verbatim>\<open>xs.index(x)\<close>: the position of the first element equal to \<open>x\<close>.\<close>

fun list_index :: "'a list \<Rightarrow> 'a \<Rightarrow> error + nat" where
  "list_index [] x = Inl ValueError"
| "list_index (y # ys) x =
     (if y = x then Inr 0
      else (case list_index ys x of Inl e \<Rightarrow> Inl e | Inr i \<Rightarrow> Inr (Suc i)))"

text \<open>\<^verbatim>\<open>np.mean\<close> of a list.\<close>

definition mean :: "real list \<Rightarrow> real" where
  "mean xs = sum_list xs / real (length xs)"

subsection \<open>Policy generators and the action-value table (notebook 2)\<close>

definition generate_random_policy :: "env \<Rightarrow> policy" where
  "generate_random_policy env =
     fold (\<lambda>state pi. pi(state \<mapsto> (map (\<lambda>action. action) (actions env),
                                     map (\<lambda>action. 0.25) (actions env))))
       (states env) Map.empty"

text \<open>\<^verbatim>\<open>prob = [r[0], r[1] - r[0], r[2] - r[1], 1-r[2]]\<close> for the sorted sample \<open>r\<close>.\<close>

definition any_prob :: "real \<times> real \<times> real \<Rightarrow> real list" where
  "any_prob smp =
     (case smp of (x, y, z) \<Rightarrow>
        let r = sort [x, y, z] in [r ! 0, r ! 1 - r ! 0, r ! 2 - r ! 1, 1 - r ! 2])"

text \<open>\<open>smp k\<close> is the outcome of \<^verbatim>\<open>np.random.sample(3)\<close> in the \<open>k\<close>-th round of the loop
  over the states.\<close>

definition generate_any_policy :: "env \<Rightarrow> (nat \<Rightarrow> real \<times> real \<times> real) \<Rightarrow> policy" where
  "generate_any_policy env smp =
     fold (\<lambda>(k, state) pi. pi(state \<mapsto> (actions env, any_prob (smp k))))
       (enumerate 0 (states env)) Map.empty"

text \<open>The loop \<^verbatim>\<open>for a in env.actions: ... q_values.append(Q[state,a])\<close>; a missing key
  raises \<^verbatim>\<open>KeyError\<close>.\<close>

fun q_values_of :: "qtable \<Rightarrow> int \<Rightarrow> string list \<Rightarrow> error + real list" where
  "q_values_of Q state [] = Inr []"
| "q_values_of Q state (a # as) =
     (case Q (state, a) of
        None \<Rightarrow> Inl KeyError
      | Some q \<Rightarrow> (case q_values_of Q state as of Inl e \<Rightarrow> Inl e | Inr qs \<Rightarrow> Inr (q # qs)))"

text \<open>The loop \<^verbatim>\<open>for i in range(len(q_values))\<close>, which appends 1 at
  \<^verbatim>\<open>np.argmax(q_values)\<close> and 0 elsewhere; \<^verbatim>\<open>np.argmax\<close> is only called inside the
  loop, hence never on an empty list.\<close>

definition greedy_prob :: "real list \<Rightarrow> error + real list" where
  "greedy_prob q_values =
     (if q_values = [] then Inr []
      else err_bind (np_argmax q_values)
             (\<lambda>m. Inr (map (\<lambda>i. if i = m then 1 else 0) [0..<length q_values])))"

fun greedy_loop :: "env \<Rightarrow> qtable \<Rightarrow> int list \<Rightarrow> policy \<Rightarrow> error + policy" where
  "greedy_loop env Q [] pol = Inr pol"
| "greedy_loop env Q (state # rest) pol =
     (case q_values_of Q state (actions env) of
        Inl e \<Rightarrow> Inl e
      | Inr q_values \<Rightarrow>
          (case greedy_prob q_values of
             Inl e \<Rightarrow> Inl e
           | Inr prob \<Rightarrow> greedy_loop env Q rest (pol(state \<mapsto> (actions env, prob)))))"

definition generate_greedy_policy :: "env \<Rightarrow> qtable \<Rightarrow> error + policy" where
  "generate_greedy_policy env Q = greedy_loop env Q (states env) Map.empty"

definition state_action_value :: "env \<Rightarrow> qtable" where
  "state_action_value env =
     fold (\<lambda>(state, action, next_state, reward) q. q((state, action) \<mapsto> - 1000))
       (transitions env) Map.empty"

subsection \<open>Episode generation (notebook 2)\<close>

text \<open>
  The exploration perturbation of the second definition of \<^verbatim>\<open>generate_episode\<close>:
  \<^verbatim>\<open>
  pr[np.argmax(pr)] -= .2
  pr[np.random.choice(np.delete(np.arange(4), np.argmax(pr)))] += .1
  pr[np.random.choice(np.delete(np.arange(4), np.argmax(pr)))] += .1
  \<close>
  with the two draws \<open>d1\<close> and \<open>d2\<close>.
\<close>

definition perturb :: "real list \<Rightarrow> nat \<Rightarrow> nat \<Rightarrow> error + real list" where
  "perturb pr d1 d2 =
     err_bind (np_argmax pr) (\<lambda>m0.
     err_bind (add_at pr m0 (- 0.2)) (\<lambda>pr1.
     err_bind (np_argmax pr1) (\<lambda>m1.
     err_bind (np_delete_arange4 m1) (\<lambda>c1.
     err_bind (choice c1 d1) (\<lambda>i1.
     err_bind (add_at pr1 i1 0.1) (\<lambda>pr2.
     err_bind (np_argmax pr2) (\<lambda>m2.
     err_bind (np_delete_arange4 m2) (\<lambda>c2.
     err_bind (choice c2 d2) (\<lambda>i2.
     add_at pr2 i2 0.1)))))))))"

text \<open>
  The first definition of \<^verbatim>\<open>generate_episode\<close> (cell 196, shadowed by the second one):
  one draw per round, a bound of 50 on the length, \<^verbatim>\<open>None\<close> when the bound is passed.
  The result of the function is an episode or \<^verbatim>\<open>None\<close>, an \<open>episode option\<close>; the
  policy is returned as well, as the second definition changes it.
\<close>

fun generate_episode_v1_loop ::
  "env \<Rightarrow> policy \<Rightarrow> int \<Rightarrow> string \<Rightarrow> episode \<Rightarrow> nat list \<Rightarrow> error + (episode \<times> nat list)"
where
  "generate_episode_v1_loop env policy current_state action episode [] = Inl OutOfDraws"
| "generate_episode_v1_loop env policy current_state action episode (d # ds) =
     (case state_transition env current_state action of (next_state, reward) \<Rightarrow>
      (case policy current_state of
         None \<Rightarrow> Inl KeyError
       | Some (acts, pr) \<Rightarrow>
          (case choice_p acts pr d of
             Inl e \<Rightarrow> Inl e
           | Inr action' \<Rightarrow>
               let episode' = episode @ [(next_state, action', reward)]
               in if next_state = 0 \<or> 50 < length episode' then Inr (episode', ds)
                  else generate_episode_v1_loop env policy next_state action' episode' ds)))"

definition generate_episode_v1 ::
  "env \<Rightarrow> int \<Rightarrow> string \<Rightarrow> policy \<Rightarrow> nat list \<Rightarrow> error + (episode option \<times> policy \<times> nat list)"
where
  "generate_episode_v1 env s0 a0 policy ds =
     (case generate_episode_v1_loop env policy s0 a0 [(s0, a0, - 1)] ds of
        Inl e \<Rightarrow> Inl e
      | Inr (episode, ds') \<Rightarrow>
          if 50 < length episode then Inr (None, policy, ds')
          else Inr (Some episode, policy, ds'))"

text \<open>
  The second definition of \<^verbatim>\<open>generate_episode\<close> (cell 209, the one in force): three
  draws per round, no bound. \<^verbatim>\<open>pr\<close> is the list object stored in the policy, so the
  perturbation changes the policy of the caller: the loop passes the changed policy on
  and the function returns it.
\<close>

fun generate_episode_loop ::
  "env \<Rightarrow> policy \<Rightarrow> int \<Rightarrow> string \<Rightarrow> episode \<Rightarrow> nat list
    \<Rightarrow> error + (episode \<times> policy \<times> nat list)"
where
  "generate_episode_loop env policy current_state action episode (d1 # d2 # d3 # ds) =
     (case state_transition env current_state action of (next_state, reward) \<Rightarrow>
      (case policy current_state of
         None \<Rightarrow> Inl KeyError
       | Some (acts, pr) \<Rightarrow>
          (case perturb pr d1 d2 of
             Inl e \<Rightarrow> Inl e
           | Inr pr' \<Rightarrow>
              (case choice_p acts pr' d3 of
                 Inl e \<Rightarrow> Inl e
               | Inr action' \<Rightarrow>
                   let policy' = policy(current_state \<mapsto> (acts, pr'));
                       episode' = episode @ [(next_state, action', reward)]
                   in if next_state = 0 then Inr (episode', policy', ds)
                      else generate_episode_loop env policy' next_state action' episode' ds))))"
| "generate_episode_loop env policy current_state action episode ds = Inl OutOfDraws"

definition generate_episode ::
  "env \<Rightarrow> int \<Rightarrow> string \<Rightarrow> policy \<Rightarrow> nat list \<Rightarrow> error + (episode option \<times> policy \<times> nat list)"
where
  "generate_episode env s0 a0 policy ds =
     (case generate_episode_loop env policy s0 a0 [(s0, a0, - 1)] ds of
        Inl e \<Rightarrow> Inl e
      | Inr (episode, policy', ds') \<Rightarrow> Inr (Some (butlast episode), policy', ds'))"

text \<open>
  For the statement of what the second \<^verbatim>\<open>generate_episode\<close> returns: the entries
  \<open>rest\<close> that follow a pair \<open>(s, a)\<close> are the trajectory of the environment from that
  pair. Each entry holds the state and the reward of the transition from the state and
  action before it, no state in it is the terminal state 0, and the transition from the
  last state and action (from \<open>(s, a)\<close> itself when \<open>rest\<close> is empty) leads to the
  terminal state.
\<close>

fun follows :: "env \<Rightarrow> int \<Rightarrow> string \<Rightarrow> episode \<Rightarrow> bool" where
  "follows env s a [] = (fst (state_transition env s a) = 0)"
| "follows env s a ((s', a', r) # rest) =
     (state_transition env s a = (s', r) \<and> s' \<noteq> 0 \<and> follows env s' a' rest)"

text \<open>
  For the statement of the effect of \<^verbatim>\<open>generate_episode\<close> on the policy: the
  perturbation applied at each state of a list in turn, every state with the first two
  of the three draws of its round (the third draw selects the action).
\<close>

fun perturb_states :: "policy \<Rightarrow> int list \<Rightarrow> nat list \<Rightarrow> error + policy" where
  "perturb_states pol [] ds = Inr pol"
| "perturb_states pol (s # ss) (d1 # d2 # d3 # ds) =
     (case pol s of
        None \<Rightarrow> Inl KeyError
      | Some (acts, pr) \<Rightarrow>
         (case perturb pr d1 d2 of
            Inl e \<Rightarrow> Inl e
          | Inr pr' \<Rightarrow> perturb_states (pol(s \<mapsto> (acts, pr'))) ss ds))"
| "perturb_states pol (s # ss) ds = Inl OutOfDraws"

subsection \<open>Monte Carlo exploring starts (notebook 2)\<close>

text \<open>
  The return of \<^verbatim>\<open>monte_carlo_es\<close>:
  \<^verbatim>\<open>
  G = 0
  for j in range(idx, len(episode)-1):
      G = env.gamma * (G + episode[j][-1])
  \<close>
\<close>

definition es_return :: "real \<Rightarrow> episode \<Rightarrow> nat \<Rightarrow> real" where
  "es_return g episode idx =
     foldl (\<lambda>G j. g * (G + snd (snd (episode ! j)))) 0 [idx..<length episode - 1]"

text \<open>The body of \<^verbatim>\<open>for s, a, r in episode\<close>, on the tables \<open>Q\<close> and \<open>returns\<close> and
  the set \<open>already_visited\<close>.\<close>

type_synonym es_tables = "qtable \<times> ((int \<times> string) \<rightharpoonup> real list) \<times> (int \<times> string) set"

fun es_visit :: "real \<Rightarrow> episode \<Rightarrow> int \<times> string \<times> real \<Rightarrow> es_tables \<Rightarrow> error + es_tables" where
  "es_visit g episode (s, a, r) (Q, returns, already_visited) =
     (if (s, a) \<notin> already_visited then
        (case list_index episode (s, a, r) of
           Inl e \<Rightarrow> Inl e
         | Inr idx \<Rightarrow>
            (let G = es_return g episode idx
             in case returns (s, a) of
                  None \<Rightarrow> Inl KeyError
                | Some rs \<Rightarrow>
                    Inr (Q((s, a) \<mapsto> mean (rs @ [G])), returns((s, a) \<mapsto> rs @ [G]),
                         insert (s, a) already_visited)))
      else Inr (Q, returns, already_visited))"

fun es_episode :: "real \<Rightarrow> episode \<Rightarrow> episode \<Rightarrow> es_tables \<Rightarrow> error + es_tables" where
  "es_episode g episode [] tabs = Inr tabs"
| "es_episode g episode (x # rest) tabs =
     (case es_visit g episode x tabs of
        Inl e \<Rightarrow> Inl e
      | Inr tabs' \<Rightarrow> es_episode g episode rest tabs')"

text \<open>
  The loop \<^verbatim>\<open>for _ in range(num_iter)\<close> of \<^verbatim>\<open>monte_carlo_es\<close>. The name
  \<^verbatim>\<open>generate_episode\<close> is looked up when the loop runs, so the generator is a parameter
  \<open>gen\<close>: either of the two definitions above. Iterating over \<^verbatim>\<open>None\<close> in
  \<^verbatim>\<open>for s, a, r in episode\<close> raises \<^verbatim>\<open>TypeError\<close>.
\<close>

type_synonym generator =
  "env \<Rightarrow> int \<Rightarrow> string \<Rightarrow> policy \<Rightarrow> nat list \<Rightarrow> error + (episode option \<times> policy \<times> nat list)"

type_synonym es_state = "qtable \<times> policy \<times> ((int \<times> string) \<rightharpoonup> real list)"

fun monte_carlo_es_loop ::
  "generator \<Rightarrow> env \<Rightarrow> nat \<Rightarrow> es_state \<Rightarrow> nat list \<Rightarrow> error + (es_state \<times> nat list)"
where
  "monte_carlo_es_loop gen env 0 st ds = Inr (st, ds)"
| "monte_carlo_es_loop gen env (Suc n) (Q, pol, returns) (d1 # d2 # ds) =
     (case choice (states env) d1 of
        Inl e \<Rightarrow> Inl e
      | Inr s0 \<Rightarrow>
     (case choice (actions env) d2 of
        Inl e \<Rightarrow> Inl e
      | Inr a0 \<Rightarrow>
     (case gen env s0 a0 pol ds of
        Inl e \<Rightarrow> Inl e
      | Inr (None, pol', ds') \<Rightarrow> Inl TypeError
      | Inr (Some episode, pol', ds') \<Rightarrow>
     (case es_episode (gamma env) episode episode (Q, returns, {}) of
        Inl e \<Rightarrow> Inl e
      | Inr (Q', returns', already_visited) \<Rightarrow>
     (case generate_greedy_policy env Q' of
        Inl e \<Rightarrow> Inl e
      | Inr pol'' \<Rightarrow> monte_carlo_es_loop gen env n (Q', pol'', returns') ds')))))"
| "monte_carlo_es_loop gen env (Suc n) st ds = Inl OutOfDraws"

text \<open>\<^verbatim>\<open>returns[(s,a)] = []\<close> for the keys of \<open>Q\<close>, which are the pairs of
  \<^verbatim>\<open>env.transitions\<close>.\<close>

definition empty_returns :: "env \<Rightarrow> ((int \<times> string) \<rightharpoonup> real list)" where
  "empty_returns env =
     fold (\<lambda>(state, action, next_state, reward) rt. rt((state, action) \<mapsto> []))
       (transitions env) Map.empty"

definition monte_carlo_es_with ::
  "generator \<Rightarrow> env \<Rightarrow> nat \<Rightarrow> (nat \<Rightarrow> real \<times> real \<times> real) \<Rightarrow> nat list
     \<Rightarrow> error + (es_state \<times> nat list)"
where
  "monte_carlo_es_with gen env num_iter smp ds =
     monte_carlo_es_loop gen env num_iter
       (state_action_value env, generate_any_policy env smp, empty_returns env) ds"

definition monte_carlo_es ::
  "env \<Rightarrow> nat \<Rightarrow> (nat \<Rightarrow> real \<times> real \<times> real) \<Rightarrow> nat list \<Rightarrow> error + (es_state \<times> nat list)"
where
  "monte_carlo_es = monte_carlo_es_with generate_episode"

subsection \<open>Monte Carlo prediction (notebook 1)\<close>

fun generate_random_episode_loop ::
  "env \<Rightarrow> int \<Rightarrow> state_episode \<Rightarrow> nat list \<Rightarrow> error + (state_episode \<times> nat list)"
where
  "generate_random_episode_loop env current_state episode [] = Inl OutOfDraws"
| "generate_random_episode_loop env current_state episode (d # ds) =
     (case choice (actions env) d of
        Inl e \<Rightarrow> Inl e
      | Inr action \<Rightarrow>
         (case state_transition env current_state action of (next_state, reward) \<Rightarrow>
            let episode' = episode @ [(next_state, reward)]
            in if next_state = 0 then Inr (episode', ds)
               else generate_random_episode_loop env next_state episode' ds))"

definition generate_random_episode ::
  "env \<Rightarrow> nat list \<Rightarrow> error + (state_episode \<times> nat list)"
where
  "generate_random_episode env ds =
     (case ds of
        [] \<Rightarrow> Inl OutOfDraws
      | d # ds' \<Rightarrow>
         (case choice (states env) d of
            Inl e \<Rightarrow> Inl e
          | Inr current_state \<Rightarrow>
              generate_random_episode_loop env current_state [(current_state, - 1)] ds'))"

definition value_array :: "env \<Rightarrow> real list" where
  "value_array env = replicate (length (states env) + 2) 0"

text \<open>
  The return of the two prediction functions:
  \<^verbatim>\<open>
  G = 0
  j = 1
  while j + idx < len(episode):
      G = env.gamma * (G + episode[j + idx][1])
      j += 1
  \<close>
\<close>

function return_loop :: "real \<Rightarrow> state_episode \<Rightarrow> nat \<Rightarrow> nat \<Rightarrow> real \<Rightarrow> real" where
  "return_loop g episode idx j G =
     (if j + idx < length episode
      then return_loop g episode idx (j + 1) (g * (G + snd (episode ! (j + idx))))
      else G)"
  by pat_completeness auto
termination
  by (relation "measure (\<lambda>(g, episode, idx, j, G). length episode - (j + idx))") auto

type_synonym mc_tables = "real list \<times> (int \<rightharpoonup> real list)"

text \<open>The body of \<^verbatim>\<open>for s, r in episode\<close> in \<^verbatim>\<open>first_visit_mc\<close>.\<close>

fun first_visit ::
  "real \<Rightarrow> state_episode \<Rightarrow> int \<times> real \<Rightarrow> mc_tables \<times> int set \<Rightarrow> error + (mc_tables \<times> int set)"
where
  "first_visit g episode (s, r) ((values, returns), already_visited) =
     (if s \<notin> already_visited then
        (case list_index episode (s, r) of
           Inl e \<Rightarrow> Inl e
         | Inr idx \<Rightarrow>
            (let G = return_loop g episode idx 1 0
             in case returns s of
                  None \<Rightarrow> Inl KeyError
                | Some rs \<Rightarrow>
                    (case np_set values s (mean (rs @ [G])) of
                       Inl e \<Rightarrow> Inl e
                     | Inr values' \<Rightarrow>
                         Inr ((values', returns(s \<mapsto> rs @ [G])), insert s already_visited))))
      else Inr ((values, returns), already_visited))"

fun first_visit_episode ::
  "real \<Rightarrow> state_episode \<Rightarrow> state_episode \<Rightarrow> mc_tables \<times> int set
     \<Rightarrow> error + (mc_tables \<times> int set)"
where
  "first_visit_episode g episode [] tabs = Inr tabs"
| "first_visit_episode g episode (x # rest) tabs =
     (case first_visit g episode x tabs of
        Inl e \<Rightarrow> Inl e
      | Inr tabs' \<Rightarrow> first_visit_episode g episode rest tabs')"

fun first_visit_loop ::
  "env \<Rightarrow> nat \<Rightarrow> mc_tables \<Rightarrow> nat list \<Rightarrow> error + (mc_tables \<times> nat list)"
where
  "first_visit_loop env 0 tabs ds = Inr (tabs, ds)"
| "first_visit_loop env (Suc n) tabs ds =
     (case generate_random_episode env ds of
        Inl e \<Rightarrow> Inl e
      | Inr (episode, ds') \<Rightarrow>
         (case first_visit_episode (gamma env) episode episode (tabs, {0}) of
            Inl e \<Rightarrow> Inl e
          | Inr (tabs', already_visited) \<Rightarrow> first_visit_loop env n tabs' ds'))"

definition empty_state_returns :: "env \<Rightarrow> (int \<rightharpoonup> real list)" where
  "empty_state_returns env = fold (\<lambda>state rt. rt(state \<mapsto> [])) (states env) Map.empty"

definition first_visit_mc :: "env \<Rightarrow> nat \<Rightarrow> nat list \<Rightarrow> error + (mc_tables \<times> nat list)" where
  "first_visit_mc env num_iter ds =
     first_visit_loop env num_iter (value_array env, empty_state_returns env) ds"

text \<open>The body of \<^verbatim>\<open>for s, r in episode\<close> in \<^verbatim>\<open>every_visit_mc\<close>.\<close>

fun every_visit :: "real \<Rightarrow> state_episode \<Rightarrow> int \<times> real \<Rightarrow> mc_tables \<Rightarrow> error + mc_tables" where
  "every_visit g episode (s, r) (values, returns) =
     (if s \<noteq> 0 then
        (case list_index episode (s, r) of
           Inl e \<Rightarrow> Inl e
         | Inr idx \<Rightarrow>
            (let G = return_loop g episode idx 1 0
             in case returns s of
                  None \<Rightarrow> Inl KeyError
                | Some rs \<Rightarrow>
                    (case np_set values s (mean (rs @ [G])) of
                       Inl e \<Rightarrow> Inl e
                     | Inr values' \<Rightarrow> Inr (values', returns(s \<mapsto> rs @ [G])))))
      else Inr (values, returns))"

fun every_visit_episode ::
  "real \<Rightarrow> state_episode \<Rightarrow> state_episode \<Rightarrow> mc_tables \<Rightarrow> error + mc_tables"
where
  "every_visit_episode g episode [] tabs = Inr tabs"
| "every_visit_episode g episode (x # rest) tabs =
     (case every_visit g episode x tabs of
        Inl e \<Rightarrow> Inl e
      | Inr tabs' \<Rightarrow> every_visit_episode g episode rest tabs')"

fun every_visit_loop ::
  "env \<Rightarrow> nat \<Rightarrow> mc_tables \<Rightarrow> nat list \<Rightarrow> error + (mc_tables \<times> nat list)"
where
  "every_visit_loop env 0 tabs ds = Inr (tabs, ds)"
| "every_visit_loop env (Suc n) tabs ds =
     (case generate_random_episode env ds of
        Inl e \<Rightarrow> Inl e
      | Inr (episode, ds') \<Rightarrow>
         (case every_visit_episode (gamma env) episode episode tabs of
            Inl e \<Rightarrow> Inl e
          | Inr tabs' \<Rightarrow> every_visit_loop env n tabs' ds'))"

definition every_visit_mc :: "env \<Rightarrow> nat \<Rightarrow> nat list \<Rightarrow> error + (mc_tables \<times> nat list)" where
  "every_visit_mc env num_iter ds =
     every_visit_loop env num_iter (value_array env, empty_state_returns env) ds"

subsection \<open>The recurrence in the words of the specification\<close>

text \<open>
  The specification's recurrence for the return of a visit at index \<open>i\<close>: starting from
  \<open>G = 0\<close>, iterate \<open>j\<close> from \<open>i + 1\<close> to the last index of the episode, accumulating
  \<open>G \<leftarrow> \<gamma> \<cdot> (G + reward[j])\<close>. It is stated on the list of the rewards of the episode and
  is compared with the functions above.
\<close>

definition spec_return :: "real \<Rightarrow> real list \<Rightarrow> nat \<Rightarrow> real" where
  "spec_return g rewards i = foldl (\<lambda>G j. g * (G + rewards ! j)) 0 [i + 1..<length rewards]"

subsection \<open>A concrete environment\<close>

text \<open>
  Modelled from the spec: the class \<^verbatim>\<open>GridWorld\<close> is not part of the sources. This is the
  4x4 gridworld of the specification as the outputs stored in the notebooks show it:
  the cells 1..14 are the states, both terminal corners are reported as state 0, the
  actions are U, D, L, R, a move off the grid leaves the state unchanged, and \<open>gamma\<close> is
  0.9. The reward of a move is a parameter; it is -1 for every move in the notebooks'
  outputs (\<open>gw\<close>).
\<close>

definition grid_move :: "int \<Rightarrow> string \<Rightarrow> int" where
  "grid_move s a =
     (let t = (if a = ''U'' then (if 4 \<le> s then s - 4 else s)
               else if a = ''D'' then (if s < 12 then s + 4 else s)
               else if a = ''L'' then (if s mod 4 = 0 then s else s - 1)
               else if a = ''R'' then (if s mod 4 = 3 then s else s + 1)
               else s)
      in if t = 15 then 0 else t)"

definition grid_env :: "(int \<Rightarrow> string \<Rightarrow> real) \<Rightarrow> env" where
  "grid_env rw =
     \<lparr>states = [1, 2, 3, 4, 5, 6, 7, 8, 9, 10, 11, 12, 13, 14],
      actions = [''U'', ''D'', ''L'', ''R''],
      transitions =
        concat (map (\<lambda>s. map (\<lambda>a. (s, a, grid_move s a, rw s a)) [''U'', ''D'', ''L'', ''R''])
          [1, 2, 3, 4, 5, 6, 7, 8, 9, 10, 11, 12, 13, 14]),
      gamma = 0.9,
      state_transition = (\<lambda>s a. (grid_move s a, rw s a))\<rparr>"

definition gw :: env where
  "gw = grid_env (\<lambda>s a. - 1)"

text \<open>An environment of the same shape in which leaving cell 5 costs 2 instead of 1.\<close>

definition rough_gw :: env where
  "rough_gw = grid_env (\<lambda>s a. if s = 5 then - 2 else - 1)"

subsection \<open>Concrete runs\<close>

text \<open>The draws that make \<^verbatim>\<open>generate_random_episode(gw)\<close> produce the episode printed in
  the output of cell 60 of notebook 1: the start state is the entry 4 of the states, the
  actions are D, L, D, R, U, U, D, U, D, U, D, D, R, R.\<close>

definition notebook_draws :: "nat list" where
  "notebook_draws = [4, 1, 2, 1, 3, 0, 0, 1, 0, 1, 0, 1, 1, 3, 3]"

definition notebook_episode :: state_episode where
  "notebook_episode =
     [(5, - 1), (9, - 1), (8, - 1), (12, - 1), (13, - 1), (9, - 1), (5, - 1), (9, - 1),
      (5, - 1), (9, - 1), (5, - 1), (9, - 1), (13, - 1), (14, - 1), (0, - 1)]"

text \<open>A sample that makes \<^verbatim>\<open>generate_any_policy\<close> give every action the probability
  0.25, and the draws of one iteration of \<^verbatim>\<open>monte_carlo_es\<close>: the start (5, U), then two
  rounds of \<^verbatim>\<open>generate_episode\<close>, the first of which selects the action L.\<close>

definition quartiles :: "nat \<Rightarrow> real \<times> real \<times> real" where
  "quartiles k = (0.25, 0.5, 0.75)"

definition es_draws :: "nat list" where
  "es_draws = [4, 0, 0, 0, 2, 0, 0, 0]"

text \<open>An action-value table for \<open>gw\<close>: the initial table, with the pair (5, D) raised
  to -1.\<close>

definition example_Q :: qtable where
  "example_Q = (state_action_value gw)((5, ''D'') \<mapsto> - 1)"

text \<open>Draws for runs that stay in cell 1 by moving up against the edge of the grid:
  50 rounds of the first \<^verbatim>\<open>generate_episode\<close> that all select U, and 51 rounds of the
  second one, the 50th of which selects L, the move into the terminal state.\<close>

definition long_draws :: "nat list" where
  "long_draws = [0, 0, 0, 0, 0, 0, 0, 0, 0, 0, 0, 0, 0, 0, 0, 0, 0, 0, 0, 0, 0, 0, 0, 0, 0, 0, 0, 0, 0, 0, 0, 0, 0, 0, 0, 0, 0, 0, 0, 0, 0, 0, 0, 0, 0, 0, 0, 0, 0, 0, 0, 0, 0, 0, 0, 0, 0, 0, 0, 0, 0, 0, 0, 0, 0, 0, 0, 0, 0, 0, 0, 0, 0, 0, 0, 0, 0, 0, 0, 0, 0, 0, 0, 0, 0, 0, 0, 0, 0, 0, 0, 0, 0, 0, 0, 0, 0, 0, 0, 0, 0, 0, 0, 0, 0, 0, 0, 0, 0, 0, 0, 0, 0, 0, 0, 0, 0, 0, 0, 0, 0, 0, 0, 0, 0, 0, 0, 0, 0, 0, 0, 0, 0, 0, 0, 0, 0, 0, 0, 0, 0, 0, 0, 0, 0, 0, 0, 0, 0, 2, 0, 0, 0]"

definition overrun_draws :: "nat list" where
  "overrun_draws = [0, 0, 0, 0, 0, 0, 0, 0, 0, 0, 0, 0, 0, 0, 0, 0, 0, 0, 0, 0, 0, 0, 0, 0, 0, 0, 0, 0, 0, 0, 0, 0, 0, 0, 0, 0, 0, 0, 0, 0, 0, 0, 0, 0, 0, 0, 0, 0, 0, 0]"

text \<open>An iteration of \<^verbatim>\<open>monte_carlo_es\<close> that starts with (1, U) and whose episode passes
  the bound of the first \<^verbatim>\<open>generate_episode\<close>; and three rounds of the second
  \<^verbatim>\<open>generate_episode\<close> in cell 1.\<close>

definition es_overrun_draws :: "nat list" where
  "es_overrun_draws = 0 # 0 # overrun_draws"

definition cumulative_draws :: "nat list" where
  "cumulative_draws = [1, 2, 0, 1, 2, 2, 1, 2, 0]"

section \<open>Properties\<close>

subsection \<open>Basic facts\<close>

lemma err_bind_Inr [simp]: "err_bind (Inr x) f = f x"
  by (simp add: err_bind_def)

lemma err_bind_Inl [simp]: "err_bind (Inl e) f = Inl e"
  by (simp add: err_bind_def)

lemma argmax_from_spec:
  assumes "length ps = i" "best < i" "ps ! best = v"
    and "\<forall>k<i. ps ! k \<le> v" and "\<forall>k<best. ps ! k < v"
  shows "argmax_from xs i best v < length (ps @ xs)
       \<and> (\<forall>k<length (ps @ xs). (ps @ xs) ! k \<le> (ps @ xs) ! argmax_from xs i best v)
       \<and> (\<forall>k<argmax_from xs i best v. (ps @ xs) ! k < (ps @ xs) ! argmax_from xs i best v)"
  using assms
proof (induction xs arbitrary: ps i best v)
  case Nil
  then show ?case by auto
next
  case (Cons x xs)
  show ?case
  proof (cases "v < x")
    case True
    have "argmax_from xs (Suc i) i x < length ((ps @ [x]) @ xs)
       \<and> (\<forall>k<length ((ps @ [x]) @ xs).
             ((ps @ [x]) @ xs) ! k \<le> ((ps @ [x]) @ xs) ! argmax_from xs (Suc i) i x)
       \<and> (\<forall>k<argmax_from xs (Suc i) i x.
             ((ps @ [x]) @ xs) ! k < ((ps @ [x]) @ xs) ! argmax_from xs (Suc i) i x)"
    proof (rule Cons.IH)
      show "length (ps @ [x]) = Suc i" using Cons.prems by simp
      show "i < Suc i" by simp
      show "(ps @ [x]) ! i = x" by (metis Cons.prems(1) nth_append_length)
      show "\<forall>k<Suc i. (ps @ [x]) ! k \<le> x"
        using Cons.prems True
        by (auto simp: nth_append less_Suc_eq intro: order.trans less_imp_le)
      show "\<forall>k<i. (ps @ [x]) ! k < x"
        using Cons.prems True by (auto simp: nth_append intro: le_less_trans)
    qed
    then show ?thesis using True by simp
  next
    case False
    have "argmax_from xs (Suc i) best v < length ((ps @ [x]) @ xs)
       \<and> (\<forall>k<length ((ps @ [x]) @ xs).
             ((ps @ [x]) @ xs) ! k \<le> ((ps @ [x]) @ xs) ! argmax_from xs (Suc i) best v)
       \<and> (\<forall>k<argmax_from xs (Suc i) best v.
             ((ps @ [x]) @ xs) ! k < ((ps @ [x]) @ xs) ! argmax_from xs (Suc i) best v)"
    proof (rule Cons.IH)
      show "length (ps @ [x]) = Suc i" using Cons.prems by simp
      show "best < Suc i" using Cons.prems by simp
      show "(ps @ [x]) ! best = v" using Cons.prems by (simp add: nth_append)
      show "\<forall>k<Suc i. (ps @ [x]) ! k \<le> v"
        using Cons.prems False by (auto simp: nth_append less_Suc_eq)
      show "\<forall>k<best. (ps @ [x]) ! k < v"
        using Cons.prems by (auto simp: nth_append)
    qed
    then show ?thesis using False by simp
  qed
qed

lemma np_argmax_spec:
  assumes "np_argmax xs = Inr m"
  shows "m < length xs \<and> (\<forall>k<length xs. xs ! k \<le> xs ! m) \<and> (\<forall>k<m. xs ! k < xs ! m)"
proof (cases xs)
  case Nil
  with assms show ?thesis by (simp add: np_argmax_def)
next
  case (Cons x rest)
  with assms have m: "m = argmax_from rest 1 0 x" by (simp add: np_argmax_def)
  have "argmax_from rest 1 0 x < length ([x] @ rest)
       \<and> (\<forall>k<length ([x] @ rest). ([x] @ rest) ! k \<le> ([x] @ rest) ! argmax_from rest 1 0 x)
       \<and> (\<forall>k<argmax_from rest 1 0 x. ([x] @ rest) ! k < ([x] @ rest) ! argmax_from rest 1 0 x)"
    by (rule argmax_from_spec) auto
  with m Cons show ?thesis by simp
qed

lemma np_argmax_total: "xs \<noteq> [] \<Longrightarrow> \<exists>m. np_argmax xs = Inr m"
  by (cases xs) (simp_all add: np_argmax_def)

lemma sum_list_update_real:
  fixes xs :: "real list"
  shows "i < length xs \<Longrightarrow> sum_list (xs[i := v]) = sum_list xs - xs ! i + v"
proof (induction xs arbitrary: i)
  case Nil
  then show ?case by simp
next
  case (Cons x xs)
  then show ?case by (cases i) auto
qed

lemma max_entry_quarter:
  fixes xs :: "real list"
  assumes "length xs = 4" "sum_list xs = 1" "\<forall>k<length xs. xs ! k \<le> xs ! m"
  shows "1 / 4 \<le> xs ! m"
proof -
  obtain a b c d where xs: "xs = [a, b, c, d]"
    using assms(1) by (auto simp: length_Suc_conv numeral_eq_Suc)
  have "a \<le> xs ! m" "b \<le> xs ! m" "c \<le> xs ! m" "d \<le> xs ! m"
    using assms(3)[rule_format, of 0] assms(3)[rule_format, of 1]
      assms(3)[rule_format, of 2] assms(3)[rule_format, of 3] xs by simp_all
  moreover have "a + b + c + d = 1" using assms(2) xs by simp
  ultimately show ?thesis by linarith
qed

lemma choice_delete:
  fixes m :: nat
  assumes "m < 4"
  shows "\<exists>i. choice (filter (\<lambda>i. i \<noteq> m) [0, 1, 2, 3]) d = Inr i \<and> i < 4 \<and> i \<noteq> m"
proof -
  define c where "c = filter (\<lambda>i. i \<noteq> m) [0, 1, 2, 3::nat]"
  have ne: "c \<noteq> []" using assms by (auto simp: c_def)
  have sub: "\<forall>i\<in>set c. i < 4 \<and> i \<noteq> m" by (auto simp: c_def)
  have "c ! (d mod length c) \<in> set c"
    by (rule nth_mem) (use ne in simp)
  with sub have "c ! (d mod length c) < 4 \<and> c ! (d mod length c) \<noteq> m" by blast
  with ne have "\<exists>i. choice c d = Inr i \<and> i < 4 \<and> i \<noteq> m" by (simp add: choice_def)
  then show ?thesis by (simp only: c_def)
qed

lemma nonneg_update:
  fixes xs :: "real list"
  assumes "\<forall>p\<in>set xs. 0 \<le> p" "0 \<le> v"
  shows "\<forall>p\<in>set (xs[i := v]). 0 \<le> p"
  using assms by (auto dest!: set_update_subset_insert[THEN subsetD])

subsection \<open>The exploration perturbation keeps a distribution a distribution\<close>

text \<open>
  Claim C10. For every probability vector of 4 entries that are not negative and sum to
  1, the perturbation of \<^verbatim>\<open>generate_episode\<close> (0.2 off the arg-max entry, 0.1 onto each
  of two entries drawn among the indices other than the arg-max of the moment, whatever
  the two draws are) raises nothing and yields a vector of 4 entries that still sums to
  1 and has no negative entry: the maximum of such a vector is at least 0.25.
\<close>

theorem perturb_preserves_distribution:
  assumes len: "length pr = 4" and nn: "\<forall>p\<in>set pr. 0 \<le> p" and sm: "sum_list pr = 1"
  shows "\<exists>pr'. perturb pr d1 d2 = Inr pr' \<and> length pr' = 4 \<and> sum_list pr' = 1
           \<and> (\<forall>p\<in>set pr'. 0 \<le> p)"
proof -
  from len have "pr \<noteq> []" by auto
  then obtain m0 where m0: "np_argmax pr = Inr m0" using np_argmax_total by blast
  note s0 = np_argmax_spec[OF m0]
  have q: "1 / 4 \<le> pr ! m0" using max_entry_quarter[OF len sm] s0 by blast
  define pr1 where "pr1 = pr[m0 := pr ! m0 + (- 0.2)]"
  have a1: "add_at pr m0 (- 0.2) = Inr pr1" using s0 by (simp add: add_at_def pr1_def)
  have len1: "length pr1 = 4" by (simp add: pr1_def len)
  have sm1: "sum_list pr1 = 0.8" using s0 sm by (simp add: pr1_def sum_list_update_real)
  have nn1: "\<forall>p\<in>set pr1. 0 \<le> p" unfolding pr1_def
    by (rule nonneg_update[OF nn]) (use q in linarith)
  from len1 have "pr1 \<noteq> []" by auto
  then obtain m1 where m1: "np_argmax pr1 = Inr m1" using np_argmax_total by blast
  have m1lt: "m1 < 4" using np_argmax_spec[OF m1] len1 by simp
  obtain i1 where i1: "choice (filter (\<lambda>i. i \<noteq> m1) [0, 1, 2, 3]) d1 = Inr i1" "i1 < 4"
    using choice_delete[OF m1lt] by blast
  define pr2 where "pr2 = pr1[i1 := pr1 ! i1 + 0.1]"
  have a2: "add_at pr1 i1 0.1 = Inr pr2" using i1 len1 by (simp add: add_at_def pr2_def)
  have len2: "length pr2 = 4" by (simp add: pr2_def len1)
  have sm2: "sum_list pr2 = 0.9" using i1 len1 sm1 by (simp add: pr2_def sum_list_update_real)
  have nn2: "\<forall>p\<in>set pr2. 0 \<le> p" unfolding pr2_def
  proof (rule nonneg_update[OF nn1])
    have "0 \<le> pr1 ! i1" using nn1 i1 len1 by simp
    then show "0 \<le> pr1 ! i1 + 0.1" by simp
  qed
  from len2 have "pr2 \<noteq> []" by auto
  then obtain m2 where m2: "np_argmax pr2 = Inr m2" using np_argmax_total by blast
  have m2lt: "m2 < 4" using np_argmax_spec[OF m2] len2 by simp
  obtain i2 where i2: "choice (filter (\<lambda>i. i \<noteq> m2) [0, 1, 2, 3]) d2 = Inr i2" "i2 < 4"
    using choice_delete[OF m2lt] by blast
  define pr3 where "pr3 = pr2[i2 := pr2 ! i2 + 0.1]"
  have a3: "add_at pr2 i2 0.1 = Inr pr3" using i2 len2 by (simp add: add_at_def pr3_def)
  have len3: "length pr3 = 4" by (simp add: pr3_def len2)
  have sm3: "sum_list pr3 = 1" using i2 len2 sm2 by (simp add: pr3_def sum_list_update_real)
  have nn3: "\<forall>p\<in>set pr3. 0 \<le> p" unfolding pr3_def
  proof (rule nonneg_update[OF nn2])
    have "0 \<le> pr2 ! i2" using nn2 i2 len2 by simp
    then show "0 \<le> pr2 ! i2 + 0.1" by simp
  qed
  have "perturb pr d1 d2 = Inr pr3"
    unfolding perturb_def
    by (simp only: m0 a1 m1 np_delete_arange4_def m1lt i1 a2 m2 m2lt i2 a3 err_bind_Inr if_True)
  with len3 sm3 nn3 show ?thesis by blast
qed

theorem perturb_preserves_distribution_witness:
  "\<exists>pr'. perturb [0.25, 0.25, 0.25, 0.25] 0 1 = Inr pr' \<and> length pr' = 4 \<and> sum_list pr' = 1
           \<and> (\<forall>p\<in>set pr'. 0 \<le> p)"
  by (rule perturb_preserves_distribution) simp_all

subsection \<open>The return of the prediction functions\<close>

lemma return_loop_foldl:
  "return_loop g episode idx j G = foldl (\<lambda>G x. g * (G + snd x)) G (drop (j + idx) episode)"
proof (induction g episode idx j G rule: return_loop.induct)
  case (1 g episode idx j G)
  show ?case
  proof (cases "j + idx < length episode")
    case True
    then have "drop (j + idx) episode = episode ! (j + idx) # drop (j + 1 + idx) episode"
      by (simp add: Cons_nth_drop_Suc)
    with True "1.IH" show ?thesis by (subst return_loop.simps) simp
  next
    case False
    then show ?thesis by (subst return_loop.simps) simp
  qed
qed



subsection \<open>Every-visit prediction reuses the index of the first equal pair\<close>

lemmas gw_defs = gw_def grid_env_def grid_move_def

lemma notebook_episode_generated:
  "generate_random_episode gw notebook_draws = Inr (notebook_episode, [])"
  by (simp add: generate_random_episode_def gw_defs choice_def notebook_draws_def
      notebook_episode_def)

text \<open>
  Claim C2 fails on the code. On the episode of the notebook's own output, state 5 occurs
  at the indices 0, 6, 8 and 10, each time with the reward -1. \<^verbatim>\<open>every_visit_mc\<close> looks
  the index up with \<^verbatim>\<open>episode.index((s, r))\<close>, which is 0 at every occurrence, so it
  appends four times the return that follows index 0 to \<open>returns[5]\<close>, and not the
  returns that follow the indices 0, 6, 8 and 10.
\<close>

theorem every_visit_reuses_first_index:
  "\<exists>values returns.
     every_visit_mc gw 1 notebook_draws = Inr ((values, returns), [])
     \<and> returns 5 = Some (map (\<lambda>k. spec_return (9 / 10) (map snd notebook_episode) 0) [0, 6, 8, 10])
     \<and> returns 5 \<noteq> Some (map (\<lambda>k. spec_return (9 / 10) (map snd notebook_episode) k) [0, 6, 8, 10])"
  by (simp add: every_visit_mc_def notebook_episode_generated)
     (simp add: gw_def grid_env_def notebook_episode_def value_array_def empty_state_returns_def
       return_loop_foldl np_set_def mean_def spec_return_def Let_def)

subsection \<open>The return of Monte Carlo exploring starts\<close>

lemmas random_defs = choice_def choice_p_def atol_def perturb_def np_argmax_def add_at_def
  np_delete_arange4_def Let_def

text \<open>
  Claim C1 fails on the code. In \<open>rough_gw\<close>, one iteration that starts with (5, U) and
  then selects L generates the episode \<open>[(5, U, -1), (1, L, -2)]\<close>. The recurrence of
  the claim for the pair (5, U), first visited at index 0, runs over \<open>j = 1\<close> only and
  gives \<open>0.9 \<cdot> (0 + (-2)) = -1.8\<close>. \<^verbatim>\<open>monte_carlo_es\<close> runs over
  \<^verbatim>\<open>range(idx, len(episode)-1)\<close>, that is over \<open>j = 0\<close> only, and appends
  \<open>0.9 \<cdot> (0 + (-1)) = -0.9\<close>: the reward stored at index 0 is included and the reward at
  the last index is left out.
\<close>

theorem es_return_shifted_by_one:
  "\<exists>Q pol returns pol'.
     generate_episode rough_gw 5 ''U'' (generate_any_policy rough_gw quartiles) (drop 2 es_draws)
       = Inr (Some [(5, ''U'', - 1), (1, ''L'', - 2)], pol', [])
     \<and> monte_carlo_es rough_gw 1 quartiles es_draws = Inr ((Q, pol, returns), [])
     \<and> returns (5, ''U'') = Some [- 0.9]
     \<and> spec_return (9 / 10) (map (\<lambda>(s, a, r). r) [(5, ''U'', - 1), (1, ''L'', - 2)]) 0 = - 1.8"
  by (simp add: monte_carlo_es_def monte_carlo_es_with_def es_draws_def generate_episode_def
      generate_any_policy_def rough_gw_def grid_env_def quartiles_def any_prob_def grid_move_def
      random_defs es_return_def mean_def empty_returns_def state_action_value_def
      generate_greedy_policy_def greedy_prob_def spec_return_def)

subsection \<open>The greedy policy\<close>

lemma q_values_of_defined:
  assumes "\<forall>a\<in>set acts. Q (s, a) \<noteq> None"
  shows "q_values_of Q s acts = Inr (map (\<lambda>a. the (Q (s, a))) acts)"
  using assms by (induction acts) auto

lemma q_values_of_Inr:
  assumes "q_values_of Q s acts = Inr qs"
  shows "qs = map (\<lambda>a. the (Q (s, a))) acts"
  using assms
proof (induction acts arbitrary: qs)
  case Nil
  then show ?case by simp
next
  case (Cons a as)
  then show ?case by (auto split: option.splits sum.splits)
qed

lemma greedy_prob_total: "\<exists>prob. greedy_prob qs = Inr prob"
proof (cases "qs = []")
  case True
  then show ?thesis by (simp add: greedy_prob_def)
next
  case False
  then obtain m where "np_argmax qs = Inr m" using np_argmax_total by blast
  with False show ?thesis by (simp add: greedy_prob_def)
qed

lemma greedy_prob_spec:
  assumes "greedy_prob qs = Inr prob"
  shows "length prob = length qs
       \<and> (\<forall>i<length qs. prob ! i =
            (if (\<forall>k<length qs. qs ! k \<le> qs ! i) \<and> (\<forall>k<i. qs ! k < qs ! i) then 1 else 0))"
proof (cases "qs = []")
  case True
  with assms show ?thesis by (simp add: greedy_prob_def)
next
  case False
  then obtain m where m: "np_argmax qs = Inr m" using np_argmax_total by blast
  note sp = np_argmax_spec[OF m]
  from assms False m have prob: "prob = map (\<lambda>i. if i = m then 1 else 0) [0..<length qs]"
    by (simp add: greedy_prob_def)
  have "(i = m) = ((\<forall>k<length qs. qs ! k \<le> qs ! i) \<and> (\<forall>k<i. qs ! k < qs ! i))"
    if i: "i < length qs" for i
  proof
    assume "i = m"
    with sp show "(\<forall>k<length qs. qs ! k \<le> qs ! i) \<and> (\<forall>k<i. qs ! k < qs ! i)" by simp
  next
    assume c: "(\<forall>k<length qs. qs ! k \<le> qs ! i) \<and> (\<forall>k<i. qs ! k < qs ! i)"
    show "i = m"
    proof (rule ccontr)
      assume "i \<noteq> m"
      then consider "i < m" | "m < i" by linarith
      then show False
      proof cases
        case 1
        with sp have "qs ! i < qs ! m" by simp
        moreover from c sp have "qs ! m \<le> qs ! i" by simp
        ultimately show False by simp
      next
        case 2
        with c have "qs ! m < qs ! i" by simp
        moreover from sp i have "qs ! i \<le> qs ! m" by simp
        ultimately show False by simp
      qed
    qed
  qed
  then show ?thesis by (simp add: prob)
qed

lemma greedy_loop_keeps:
  assumes "greedy_loop env Q ss pol = Inr pol'" "s \<notin> set ss"
  shows "pol' s = pol s"
  using assms
  by (induction ss arbitrary: pol) (auto split: sum.splits)

lemma greedy_loop_entry:
  assumes "greedy_loop env Q ss pol = Inr pol'" "s \<in> set ss"
  shows "\<exists>qs prob. q_values_of Q s (actions env) = Inr qs \<and> greedy_prob qs = Inr prob
           \<and> pol' s = Some (actions env, prob)"
  using assms
proof (induction ss arbitrary: pol)
  case Nil
  then show ?case by simp
next
  case (Cons x ss)
  from Cons.prems(1) obtain qs prob where
    qs: "q_values_of Q x (actions env) = Inr qs" and prob: "greedy_prob qs = Inr prob"
    and rest: "greedy_loop env Q ss (pol(x \<mapsto> (actions env, prob))) = Inr pol'"
    by (auto split: sum.splits)
  show ?case
  proof (cases "s \<in> set ss")
    case True
    then show ?thesis using Cons.IH[OF rest] by blast
  next
    case False
    with Cons.prems(2) have "s = x" by simp
    moreover have "pol' s = (pol(x \<mapsto> (actions env, prob))) s"
      using greedy_loop_keeps[OF rest False] .
    ultimately show ?thesis using qs prob by auto
  qed
qed

lemma greedy_loop_total:
  assumes "\<forall>s\<in>set ss. \<forall>a\<in>set (actions env). Q (s, a) \<noteq> None"
  shows "\<exists>pol'. greedy_loop env Q ss pol = Inr pol'"
  using assms
proof (induction ss arbitrary: pol)
  case Nil
  then show ?case by simp
next
  case (Cons x ss)
  have qs: "q_values_of Q x (actions env) = Inr (map (\<lambda>a. the (Q (x, a))) (actions env))"
    by (rule q_values_of_defined) (use Cons.prems in simp)
  obtain prob where prob: "greedy_prob (map (\<lambda>a. the (Q (x, a))) (actions env)) = Inr prob"
    using greedy_prob_total by blast
  have "\<forall>s\<in>set ss. \<forall>a\<in>set (actions env). Q (s, a) \<noteq> None" using Cons.prems by simp
  from Cons.IH[OF this]
  obtain pol' where "greedy_loop env Q ss (pol(x \<mapsto> (actions env, prob))) = Inr pol'" by blast
  with qs prob show ?case by simp
qed

text \<open>
  Claim C8. For an action-value table \<open>Q\<close> that is defined on every pair of a state and
  an action of the environment, \<^verbatim>\<open>generate_greedy_policy\<close> raises nothing, and for every
  state the probability list it stores has one entry per action: 1 at the index \<open>i\<close>
  whose value \<open>Q[(state, action i)]\<close> is maximal and strictly greater than the value of
  every earlier action (the lowest index wins ties), 0 at every other index.
\<close>

theorem greedy_policy_argmax:
  assumes "\<forall>s\<in>set (states env). \<forall>a\<in>set (actions env). Q (s, a) \<noteq> None"
    and "state \<in> set (states env)"
  shows "\<exists>pol prob. generate_greedy_policy env Q = Inr pol
     \<and> pol state = Some (actions env, prob) \<and> length prob = length (actions env)
     \<and> (\<forall>i<length (actions env). prob ! i =
          (if (\<forall>k<length (actions env).
                  the (Q (state, actions env ! k)) \<le> the (Q (state, actions env ! i)))
              \<and> (\<forall>k<i. the (Q (state, actions env ! k)) < the (Q (state, actions env ! i)))
           then 1 else 0))"
proof -
  obtain pol where pol: "greedy_loop env Q (states env) Map.empty = Inr pol"
    using greedy_loop_total[OF assms(1)] by blast
  from greedy_loop_entry[OF pol assms(2)] obtain qs prob where
    qs: "q_values_of Q state (actions env) = Inr qs" and prob: "greedy_prob qs = Inr prob"
    and e: "pol state = Some (actions env, prob)" by blast
  have qs': "qs = map (\<lambda>a. the (Q (state, a))) (actions env)" using q_values_of_Inr[OF qs] .
  from greedy_prob_spec[OF prob] qs'
  have "length prob = length (actions env)
     \<and> (\<forall>i<length (actions env). prob ! i =
          (if (\<forall>k<length (actions env).
                  the (Q (state, actions env ! k)) \<le> the (Q (state, actions env ! i)))
              \<and> (\<forall>k<i. the (Q (state, actions env ! k)) < the (Q (state, actions env ! i)))
           then 1 else 0))"
    by simp
  with pol e show ?thesis unfolding generate_greedy_policy_def by blast
qed

theorem greedy_policy_argmax_witness:
  "\<exists>pol prob. generate_greedy_policy gw example_Q = Inr pol
     \<and> pol 5 = Some (actions gw, prob) \<and> length prob = length (actions gw)
     \<and> (\<forall>i<length (actions gw). prob ! i =
          (if (\<forall>k<length (actions gw).
                  the (example_Q (5, actions gw ! k)) \<le> the (example_Q (5, actions gw ! i)))
              \<and> (\<forall>k<i. the (example_Q (5, actions gw ! k)) < the (example_Q (5, actions gw ! i)))
           then 1 else 0))"
  by (rule greedy_policy_argmax)
     (simp_all add: example_Q_def state_action_value_def gw_def grid_env_def)

subsection \<open>Generated policies are probability distributions\<close>

lemma gw_sel:
  "states gw = [1, 2, 3, 4, 5, 6, 7, 8, 9, 10, 11, 12, 13, 14]"
  "actions gw = [''U'', ''D'', ''L'', ''R'']"
  "gamma gw = 9 / 10"
  by (simp_all add: gw_def grid_env_def)

lemma fold_const_upd:
  "fold (\<lambda>state pi. pi(state \<mapsto> v)) ss m = (\<lambda>s. if s \<in> set ss then Some v else m s)"
  by (induction ss arbitrary: m) (auto simp: fun_eq_iff)

lemma generate_random_policy_entry:
  "generate_random_policy env s =
     (if s \<in> set (states env)
      then Some (actions env, map (\<lambda>action. 0.25) (actions env)) else None)"
  by (simp add: generate_random_policy_def fold_const_upd)

lemma any_fold_entry:
  assumes "fold (\<lambda>(k, state) pi. pi(state \<mapsto> (acts0, any_prob (smp k)))) (enumerate n ss) m s
             = Some (acts, prob)"
  shows "m s = Some (acts, prob) \<or> (\<exists>k. prob = any_prob (smp k))"
  using assms
proof (induction ss arbitrary: n m)
  case Nil
  then show ?case by simp
next
  case (Cons x ss)
  from Cons.prems have
    "fold (\<lambda>(k, state) pi. pi(state \<mapsto> (acts0, any_prob (smp k)))) (enumerate (Suc n) ss)
       (m(x \<mapsto> (acts0, any_prob (smp n)))) s = Some (acts, prob)"
    by (simp del: fun_upd_apply)
  from Cons.IH[OF this] show ?case by (auto split: if_splits)
qed

lemma any_fold_dom:
  "s \<in> set ss \<Longrightarrow>
   \<exists>v. fold (\<lambda>(k, state) pi. pi(state \<mapsto> (acts0, any_prob (smp k)))) (enumerate n ss) m s = Some v"
proof (induction ss arbitrary: n m)
  case Nil
  then show ?case by simp
next
  case (Cons x ss)
  show ?case
  proof (cases "s \<in> set ss")
    case True
    from Cons.IH[OF True] show ?thesis by (simp del: fun_upd_apply)
  next
    case False
    with Cons.prems have sx: "s = x" by simp
    have "fold (\<lambda>(k, state) pi. pi(state \<mapsto> (acts0, any_prob (smp k)))) (enumerate k ss) m' s = m' s"
      for k m' using False by (induction ss arbitrary: k m') auto
    then show ?thesis using sx by (simp del: fun_upd_apply) simp
  qed
qed

lemma any_prob_distribution:
  assumes "smp = (x, y, z)" "0 \<le> x" "x < 1" "0 \<le> y" "y < 1" "0 \<le> z" "z < 1"
  shows "length (any_prob smp) = 4 \<and> sum_list (any_prob smp) = 1 \<and> (\<forall>p\<in>set (any_prob smp). 0 \<le> p)"
  using assms by (auto simp: any_prob_def Let_def)

lemma greedy_prob_sum:
  assumes "greedy_prob qs = Inr prob" "qs \<noteq> []"
  shows "sum_list prob = 1 \<and> (\<forall>p\<in>set prob. 0 \<le> p)"
proof -
  from assms(2) obtain m where m: "np_argmax qs = Inr m" using np_argmax_total by blast
  then have lt: "m < length qs" using np_argmax_spec by blast
  from assms m have prob: "prob = map (\<lambda>i. if i = m then 1 else 0) [0..<length qs]"
    by (simp add: greedy_prob_def)
  have "sum_list (map (\<lambda>i. if i = m then 1 else (0::real)) [0..<n]) = (if m < n then 1 else 0)" for n
    by (induction n) auto
  with lt prob show ?thesis by auto
qed

text \<open>
  Claim C6. In every policy produced by one of the three generators, the probabilities
  of every state are not negative and sum to 1 (exactly, in the model over the reals):
  \<^item> \<^verbatim>\<open>generate_random_policy\<close>, for an environment with 4 actions, stores exactly 0.25
    for each of the 4 actions in every state;
  \<^item> \<^verbatim>\<open>generate_any_policy\<close>, for samples in the interval from 0 to 1 that
    \<^verbatim>\<open>np.random.sample\<close> draws from;
  \<^item> \<^verbatim>\<open>generate_greedy_policy\<close>, for an environment with at least one action, whenever
    it returns a policy.
  Every state of the environment has an entry in each of these policies.
\<close>

theorem generated_policies_are_distributions:
  "(length (actions env) = 4 \<longrightarrow>
      (\<forall>s\<in>set (states env).
          generate_random_policy env s = Some (actions env, [0.25, 0.25, 0.25, 0.25]))
      \<and> (generate_random_policy env s = Some (acts, prob) \<longrightarrow>
            prob = [0.25, 0.25, 0.25, 0.25] \<and> sum_list prob = 1 \<and> (\<forall>p\<in>set prob. 0 \<le> p)))
   \<and> ((\<forall>k. case smp k of (x, y, z) \<Rightarrow> 0 \<le> x \<and> x < 1 \<and> 0 \<le> y \<and> y < 1 \<and> 0 \<le> z \<and> z < 1) \<longrightarrow>
        (\<forall>s\<in>set (states env). generate_any_policy env smp s \<noteq> None)
        \<and> (generate_any_policy env smp s = Some (acts, prob) \<longrightarrow>
              sum_list prob = 1 \<and> (\<forall>p\<in>set prob. 0 \<le> p)))
   \<and> (actions env \<noteq> [] \<longrightarrow> generate_greedy_policy env Q = Inr pol \<longrightarrow>
        (\<forall>s\<in>set (states env). pol s \<noteq> None)
        \<and> (pol s = Some (acts, prob) \<longrightarrow> sum_list prob = 1 \<and> (\<forall>p\<in>set prob. 0 \<le> p)))"
proof (intro conjI impI)
  assume len: "length (actions env) = 4"
  then have four: "map (\<lambda>action. 0.25 :: real) (actions env) = [0.25, 0.25, 0.25, 0.25]"
    by (auto simp: length_Suc_conv numeral_eq_Suc)
  show "\<forall>s\<in>set (states env).
          generate_random_policy env s = Some (actions env, [0.25, 0.25, 0.25, 0.25])"
    using four by (simp add: generate_random_policy_entry)
  assume "generate_random_policy env s = Some (acts, prob)"
  with four have p: "prob = [0.25, 0.25, 0.25, 0.25]"
    by (simp add: generate_random_policy_entry split: if_splits)
  show "prob = [0.25, 0.25, 0.25, 0.25]" by (rule p)
  show "sum_list prob = 1" by (simp add: p)
  show "\<forall>p\<in>set prob. 0 \<le> p" by (simp add: p)
next
  assume smp: "\<forall>k. case smp k of (x, y, z) \<Rightarrow> 0 \<le> x \<and> x < 1 \<and> 0 \<le> y \<and> y < 1 \<and> 0 \<le> z \<and> z < 1"
  show "\<forall>s\<in>set (states env). generate_any_policy env smp s \<noteq> None"
    unfolding generate_any_policy_def using any_fold_dom by fastforce
  assume "generate_any_policy env smp s = Some (acts, prob)"
  then obtain k where k: "prob = any_prob (smp k)"
    unfolding generate_any_policy_def using any_fold_entry by fastforce
  obtain x y z where xyz: "smp k = (x, y, z)" by (cases "smp k") auto
  with smp[rule_format, of k]
  have "0 \<le> x" "x < 1" "0 \<le> y" "y < 1" "0 \<le> z" "z < 1" by simp_all
  from any_prob_distribution[OF xyz this] k
  show "sum_list prob = 1" "\<forall>p\<in>set prob. 0 \<le> p" by simp_all
next
  assume ne: "actions env \<noteq> []" and g: "generate_greedy_policy env Q = Inr pol"
  from g have loop: "greedy_loop env Q (states env) Map.empty = Inr pol"
    by (simp add: generate_greedy_policy_def)
  show "\<forall>s\<in>set (states env). pol s \<noteq> None"
    using greedy_loop_entry[OF loop] by fastforce
  assume e: "pol s = Some (acts, prob)"
  have "s \<in> set (states env)"
  proof (rule ccontr)
    assume "s \<notin> set (states env)"
    from greedy_loop_keeps[OF loop this] e show False by simp
  qed
  from greedy_loop_entry[OF loop this] e obtain qs where
    qs: "q_values_of Q s (actions env) = Inr qs" and prob: "greedy_prob qs = Inr prob" by auto
  from q_values_of_Inr[OF qs] ne have "qs \<noteq> []" by simp
  from greedy_prob_sum[OF prob this]
  show "sum_list prob = 1" "\<forall>p\<in>set prob. 0 \<le> p" by simp_all
qed

theorem generated_policies_are_distributions_witness:
  "generate_random_policy gw 5 = Some (actions gw, [0.25, 0.25, 0.25, 0.25])
   \<and> sum_list [0.25, 0.25, 0.25, 0.25 :: real] = 1
   \<and> generate_any_policy gw quartiles 5 = Some (actions gw, [0.25, 0.25, 0.25, 0.25])
   \<and> (\<exists>pol. generate_greedy_policy gw example_Q = Inr pol
         \<and> pol 5 = Some (actions gw, [0, 1, 0, 0]) \<and> sum_list [0, 1, 0, 0 :: real] = 1)"
proof -
  have len: "length (actions gw) = 4" and ne: "actions gw \<noteq> []" by (simp_all add: gw_sel)
  have smp: "\<forall>k. case quartiles k of (x, y, z) \<Rightarrow> 0 \<le> x \<and> x < 1 \<and> 0 \<le> y \<and> y < 1 \<and> 0 \<le> z \<and> z < 1"
    by (simp add: quartiles_def)
  have ap: "generate_any_policy gw quartiles 5 = Some (actions gw, [0.25, 0.25, 0.25, 0.25])"
    by (simp add: generate_any_policy_def gw_sel quartiles_def any_prob_def)
  have gp: "\<exists>pol. generate_greedy_policy gw example_Q = Inr pol
              \<and> pol 5 = Some (actions gw, [0, 1, 0, 0])"
    by (simp add: generate_greedy_policy_def gw_sel example_Q_def state_action_value_def
        gw_def grid_env_def greedy_prob_def np_argmax_def)
  then obtain pol where pol: "generate_greedy_policy gw example_Q = Inr pol"
    "pol 5 = Some (actions gw, [0, 1, 0, 0])" by blast
  note t1 = generated_policies_are_distributions
    [of gw 5 "actions gw" "[0.25, 0.25, 0.25, 0.25]" quartiles example_Q pol]
  note t2 = generated_policies_are_distributions
    [of gw 5 "actions gw" "[0, 1, 0, 0]" quartiles example_Q pol]
  from t1 len smp ap have "generate_random_policy gw 5 = Some (actions gw, [0.25, 0.25, 0.25, 0.25])"
    "sum_list [0.25, 0.25, 0.25, 0.25 :: real] = 1" by (simp_all add: gw_sel)
  moreover from t2 ne pol have "sum_list [0, 1, 0, 0 :: real] = 1" by simp
  ultimately show ?thesis using ap pol by blast
qed

subsection \<open>The step bound of episode generation\<close>

lemma gw_transition: "state_transition gw = (\<lambda>s a. (grid_move s a, - 1))"
  by (simp add: gw_def grid_env_def)

lemma v1_loop_result:
  assumes "generate_episode_v1_loop env pol cs a ep ds = Inr (ep', ds')" "length ep \<le> 50"
  shows "length ep' \<le> 51 \<and> length ep' + length ds' = length ep + length ds
       \<and> length ep < length ep' \<and> (length ep' \<le> 50 \<longrightarrow> fst (last ep') = 0)"
  using assms
proof (induction ds arbitrary: cs a ep)
  case Nil
  then show ?case by simp
next
  case (Cons d ds)
  obtain next_state reward where tr: "state_transition env cs a = (next_state, reward)"
    by (cases "state_transition env cs a") auto
  from Cons.prems(1) tr obtain acts pr where pol: "pol cs = Some (acts, pr)"
    by (auto split: option.splits)
  from Cons.prems(1) tr pol obtain a' where ch: "choice_p acts pr d = Inr a'"
    by (auto split: sum.splits)
  define ep2 where "ep2 = ep @ [(next_state, a', reward)]"
  have len2: "length ep2 = Suc (length ep)" by (simp add: ep2_def)
  show ?case
  proof (cases "next_state = 0 \<or> 50 < length ep2")
    case True
    with Cons.prems(1) tr pol ch have "ep' = ep2" "ds' = ds"
      by (simp_all add: ep2_def Let_def)
    moreover have "length ep2 \<le> 50 \<longrightarrow> fst (last ep2) = 0"
      using True by (auto simp: ep2_def)
    ultimately show ?thesis using len2 Cons.prems(2) by simp
  next
    case False
    with Cons.prems(1) tr pol ch
    have rec: "generate_episode_v1_loop env pol next_state a' ep2 ds = Inr (ep', ds')"
      by (simp add: ep2_def Let_def)
    from False have "length ep2 \<le> 50" by simp
    from Cons.IH[OF rec this] len2 show ?thesis by simp
  qed
qed

lemma v1_loop_enough_draws:
  assumes "length ep \<le> 50" "51 \<le> length ep + length ds"
  shows "generate_episode_v1_loop env pol cs a ep ds \<noteq> Inl OutOfDraws"
  using assms
proof (induction ds arbitrary: cs a ep)
  case Nil
  then show ?case by simp
next
  case (Cons d ds)
  obtain next_state reward where tr: "state_transition env cs a = (next_state, reward)"
    by (cases "state_transition env cs a") auto
  show ?case
  proof (cases "pol cs")
    case None
    with tr show ?thesis by simp
  next
    case (Some ap)
    obtain acts pr where ap: "ap = (acts, pr)" by (cases ap) auto
    show ?thesis
    proof (cases "choice_p acts pr d")
      case (Inl e)
      then have "e = ValueError" by (auto simp: choice_p_def Let_def split: if_splits)
      with Inl tr Some ap show ?thesis by simp
    next
      case (Inr a')
      define ep2 where "ep2 = ep @ [(next_state, a', reward)]"
      show ?thesis
      proof (cases "next_state = 0 \<or> 50 < length ep2")
        case True
        with tr Some ap Inr show ?thesis by (simp add: ep2_def Let_def)
      next
        case False
        then have "length ep2 \<le> 50" by simp
        moreover have "51 \<le> length ep2 + length ds" using Cons.prems by (simp add: ep2_def)
        ultimately have "generate_episode_v1_loop env pol next_state a' ep2 ds \<noteq> Inl OutOfDraws"
          by (rule Cons.IH)
        with False tr Some ap Inr show ?thesis by (simp add: ep2_def Let_def)
      qed
    qed
  qed
qed

lemma random_policy_at_1: "generate_random_policy gw 1 = Some ([''U'', ''D'', ''L'', ''R''], [1/4,1/4,1/4,1/4])"
  by (simp add: generate_random_policy_def gw_sel)

lemma v1_overrun:
  "generate_episode_v1 gw 1 ''U'' (generate_random_policy gw) overrun_draws
     = Inr (None, generate_random_policy gw, [])"
  by (simp add: generate_episode_v1_def overrun_draws_def gw_transition grid_move_def random_policy_at_1
      choice_p_def atol_def Let_def)

lemma generate_episode_loop_trajectory:
  assumes "generate_episode_loop env pol cs a ep ds = Inr (ep', pol', ds')"
  shows "\<exists>tl. ep' = ep @ tl \<and> tl \<noteq> [] \<and> follows env cs a (butlast tl)
           \<and> length ds = 3 * length tl + length ds'"
  using assms
proof (induction env pol cs a ep ds rule: generate_episode_loop.induct)
  case (1 env pol cs a ep d1 d2 d3 ds)
  obtain next_state reward where tr: "state_transition env cs a = (next_state, reward)"
    by (cases "state_transition env cs a") auto
  from "1.prems" tr obtain acts pr where pol: "pol cs = Some (acts, pr)"
    by (auto split: option.splits)
  from "1.prems" tr pol obtain pr' where pt: "perturb pr d1 d2 = Inr pr'"
    by (auto split: sum.splits)
  from "1.prems" tr pol pt obtain a' where ch: "choice_p acts pr' d3 = Inr a'"
    by (auto split: sum.splits)
  define pol2 where "pol2 = pol(cs \<mapsto> (acts, pr'))"
  define ep2 where "ep2 = ep @ [(next_state, a', reward)]"
  show ?case
  proof (cases "next_state = 0")
    case True
    with "1.prems" tr pol pt ch have "ep' = ep2" "ds' = ds"
      by (simp_all add: ep2_def pol2_def Let_def)
    then show ?thesis using tr True by (simp add: ep2_def)
  next
    case False
    with "1.prems" tr pol pt ch
    have rec: "generate_episode_loop env pol2 next_state a' ep2 ds = Inr (ep', pol', ds')"
      by (simp add: ep2_def pol2_def Let_def)
    have "\<exists>tl. ep' = ep2 @ tl \<and> tl \<noteq> [] \<and> follows env next_state a' (butlast tl)
           \<and> length ds = 3 * length tl + length ds'"
      using "1.IH"[OF tr[symmetric] pol refl pt ch pol2_def ep2_def False rec] .
    then obtain tl where tl: "ep' = ep2 @ tl" "tl \<noteq> []"
      "follows env next_state a' (butlast tl)" "length ds = 3 * length tl + length ds'" by blast
    have "ep' = ep @ ((next_state, a', reward) # tl)" using tl by (simp add: ep2_def)
    moreover have "follows env cs a (butlast ((next_state, a', reward) # tl))"
      using tl tr False by simp
    moreover have "length (d1 # d2 # d3 # ds) = 3 * length ((next_state, a', reward) # tl) + length ds'"
      using tl by simp
    ultimately show ?thesis by blast
  qed
qed simp_all

lemma generate_episode_trajectory:
  assumes "generate_episode env s0 a0 pol ds = Inr (Some ep, pol', ds')"
  shows "(\<exists>rest. ep = (s0, a0, - 1) # rest \<and> follows env s0 a0 rest)
         \<and> length ds = 3 * length ep + length ds'"
proof -
  from assms obtain ep' where
    loop: "generate_episode_loop env pol s0 a0 [(s0, a0, - 1)] ds = Inr (ep', pol', ds')"
    and ep: "ep = butlast ep'"
    by (auto simp: generate_episode_def split: sum.splits)
  from generate_episode_loop_trajectory[OF loop] obtain tl where
    tl: "ep' = [(s0, a0, - 1)] @ tl" "tl \<noteq> []" "follows env s0 a0 (butlast tl)"
      "length ds = 3 * length tl + length ds'" by blast
  from tl ep have "ep = (s0, a0, - 1) # butlast tl" by (simp add: butlast_append)
  with tl show ?thesis by simp
qed

lemma positive_update:
  fixes xs :: "real list"
  assumes "\<forall>p\<in>set xs. 0 < p" "0 < v"
  shows "\<forall>p\<in>set (xs[i := v]). 0 < p"
  using assms by (auto dest!: set_update_subset_insert[THEN subsetD])

lemma perturb_keeps_positive:
  assumes len: "length pr = 4" and pos: "\<forall>p\<in>set pr. 0 < p" and sm: "sum_list pr = 1"
  shows "\<exists>pr'. perturb pr d1 d2 = Inr pr' \<and> length pr' = 4 \<and> sum_list pr' = 1
           \<and> (\<forall>p\<in>set pr'. 0 < p)"
proof -
  from len have "pr \<noteq> []" by auto
  then obtain m0 where m0: "np_argmax pr = Inr m0" using np_argmax_total by blast
  note s0 = np_argmax_spec[OF m0]
  have q: "1 / 4 \<le> pr ! m0" using max_entry_quarter[OF len sm] s0 by blast
  define pr1 where "pr1 = pr[m0 := pr ! m0 + (- 0.2)]"
  have a1: "add_at pr m0 (- 0.2) = Inr pr1" using s0 by (simp add: add_at_def pr1_def)
  have len1: "length pr1 = 4" by (simp add: pr1_def len)
  have sm1: "sum_list pr1 = 0.8" using s0 sm by (simp add: pr1_def sum_list_update_real)
  have pos1: "\<forall>p\<in>set pr1. 0 < p" unfolding pr1_def
    by (rule positive_update[OF pos]) (use q in linarith)
  from len1 have "pr1 \<noteq> []" by auto
  then obtain m1 where m1: "np_argmax pr1 = Inr m1" using np_argmax_total by blast
  have m1lt: "m1 < 4" using np_argmax_spec[OF m1] len1 by simp
  obtain i1 where i1: "choice (filter (\<lambda>i. i \<noteq> m1) [0, 1, 2, 3]) d1 = Inr i1" "i1 < 4"
    using choice_delete[OF m1lt] by blast
  define pr2 where "pr2 = pr1[i1 := pr1 ! i1 + 0.1]"
  have a2: "add_at pr1 i1 0.1 = Inr pr2" using i1 len1 by (simp add: add_at_def pr2_def)
  have len2: "length pr2 = 4" by (simp add: pr2_def len1)
  have sm2: "sum_list pr2 = 0.9" using i1 len1 sm1 by (simp add: pr2_def sum_list_update_real)
  have pos2: "\<forall>p\<in>set pr2. 0 < p" unfolding pr2_def
  proof (rule positive_update[OF pos1])
    have "0 < pr1 ! i1" using pos1 i1 len1 by simp
    then show "0 < pr1 ! i1 + 0.1" by simp
  qed
  from len2 have "pr2 \<noteq> []" by auto
  then obtain m2 where m2: "np_argmax pr2 = Inr m2" using np_argmax_total by blast
  have m2lt: "m2 < 4" using np_argmax_spec[OF m2] len2 by simp
  obtain i2 where i2: "choice (filter (\<lambda>i. i \<noteq> m2) [0, 1, 2, 3]) d2 = Inr i2" "i2 < 4"
    using choice_delete[OF m2lt] by blast
  define pr3 where "pr3 = pr2[i2 := pr2 ! i2 + 0.1]"
  have a3: "add_at pr2 i2 0.1 = Inr pr3" using i2 len2 by (simp add: add_at_def pr3_def)
  have len3: "length pr3 = 4" by (simp add: pr3_def len2)
  have sm3: "sum_list pr3 = 1" using i2 len2 sm2 by (simp add: pr3_def sum_list_update_real)
  have pos3: "\<forall>p\<in>set pr3. 0 < p" unfolding pr3_def
  proof (rule positive_update[OF pos2])
    have "0 < pr2 ! i2" using pos2 i2 len2 by simp
    then show "0 < pr2 ! i2 + 0.1" by simp
  qed
  have "perturb pr d1 d2 = Inr pr3"
    unfolding perturb_def
    by (simp only: m0 a1 m1 np_delete_arange4_def m1lt i1 a2 m2 m2lt i2 a3 err_bind_Inr if_True)
  with len3 sm3 pos3 show ?thesis by blast
qed

lemma choice_p_positive:
  assumes "length pr = 4" "\<forall>p\<in>set pr. 0 < p" "sum_list pr = 1" "d = 0 \<or> d = 2"
  shows "choice_p [''U'', ''D'', ''L'', ''R''] pr d = Inr ([''U'', ''D'', ''L'', ''R''] ! d)"
proof -
  obtain w x y z where pr: "pr = [w, x, y, z]"
    using assms(1) by (auto simp: length_Suc_conv numeral_eq_Suc)
  have cand: "filter (\<lambda>i. 0 < pr ! i) [0..<length pr] = [0, 1, 2, 3]"
    using assms(2) by (simp add: pr upt_rec_numeral)
  have ok: "\<not> (\<exists>q\<in>set pr. q < 0)" using assms(2) by fastforce
  show ?thesis
    unfolding choice_p_def Let_def cand using assms(1,3,4) ok
    by (auto simp: atol_def)
qed

lemma gw_round_up:
  assumes "pol 1 = Some ([''U'', ''D'', ''L'', ''R''], pr)" "length pr = 4"
    "\<forall>p\<in>set pr. 0 < p" "sum_list pr = 1" "d3 = 0 \<or> d3 = 2"
  shows "\<exists>pol' pr'. pol' 1 = Some ([''U'', ''D'', ''L'', ''R''], pr') \<and> length pr' = 4
           \<and> (\<forall>p\<in>set pr'. 0 < p) \<and> sum_list pr' = 1
           \<and> generate_episode_loop gw pol 1 ''U'' ep (d1 # d2 # d3 # ds)
               = generate_episode_loop gw pol' 1 ([''U'', ''D'', ''L'', ''R''] ! d3)
                   (ep @ [(1, [''U'', ''D'', ''L'', ''R''] ! d3, - 1)]) ds"
proof -
  from perturb_keeps_positive[OF assms(2,3,4)] obtain pr' where
    pt: "perturb pr d1 d2 = Inr pr'" and p: "length pr' = 4" "sum_list pr' = 1"
      "\<forall>p\<in>set pr'. 0 < p" by blast
  note ch = choice_p_positive[OF p(1) p(3) p(2) assms(5)]
  define pol' where "pol' = pol(1 \<mapsto> ([''U'', ''D'', ''L'', ''R''], pr'))"
  have "pol' 1 = Some ([''U'', ''D'', ''L'', ''R''], pr')" by (simp add: pol'_def)
  moreover have "generate_episode_loop gw pol 1 ''U'' ep (d1 # d2 # d3 # ds)
               = generate_episode_loop gw pol' 1 ([''U'', ''D'', ''L'', ''R''] ! d3)
                   (ep @ [(1, [''U'', ''D'', ''L'', ''R''] ! d3, - 1)]) ds"
    using assms(1) pt ch by (simp add: gw_transition grid_move_def pol'_def Let_def)
  ultimately show ?thesis using p by blast
qed

lemma gw_round_left:
  assumes "pol 1 = Some ([''U'', ''D'', ''L'', ''R''], pr)" "length pr = 4"
    "\<forall>p\<in>set pr. 0 < p" "sum_list pr = 1"
  shows "\<exists>pol'. generate_episode_loop gw pol 1 ''L'' ep (d1 # d2 # 0 # ds)
               = Inr (ep @ [(0, ''U'', - 1)], pol', ds)"
proof -
  from perturb_keeps_positive[OF assms(2,3,4)] obtain pr' where
    pt: "perturb pr d1 d2 = Inr pr'" and p: "length pr' = 4" "sum_list pr' = 1"
      "\<forall>p\<in>set pr'. 0 < p" by blast
  have ch: "choice_p [''U'', ''D'', ''L'', ''R''] pr' 0 = Inr ''U''"
    using choice_p_positive[OF p(1) p(3) p(2), of 0] by simp
  show ?thesis
    using assms(1) pt ch by (simp add: gw_transition grid_move_def Let_def)
qed

lemma gw_stay:
  assumes "pol 1 = Some ([''U'', ''D'', ''L'', ''R''], pr)" "length pr = 4"
    "\<forall>p\<in>set pr. 0 < p" "sum_list pr = 1"
  shows "\<exists>pol' pr'. pol' 1 = Some ([''U'', ''D'', ''L'', ''R''], pr') \<and> length pr' = 4
           \<and> (\<forall>p\<in>set pr'. 0 < p) \<and> sum_list pr' = 1
           \<and> generate_episode_loop gw pol 1 ''U'' ep (concat (replicate n [0, 0, 0]) @ rest)
               = generate_episode_loop gw pol' 1 ''U'' (ep @ replicate n (1, ''U'', - 1)) rest"
  using assms
proof (induction n arbitrary: pol pr ep)
  case 0
  then show ?case by auto
next
  case (Suc n)
  from Suc.prems gw_round_up[where pol = pol and pr = pr and ?d3.0 = 0 and ep = ep
      and ?d1.0 = 0 and ?d2.0 = 0 and ds = "concat (replicate n [0, 0, 0]) @ rest"]
  obtain pol1 pr1 where
    p1: "pol1 1 = Some ([''U'', ''D'', ''L'', ''R''], pr1)" "length pr1 = 4"
      "\<forall>p\<in>set pr1. 0 < p" "sum_list pr1 = 1"
    and st: "generate_episode_loop gw pol 1 ''U'' ep
               (0 # 0 # 0 # concat (replicate n [0, 0, 0]) @ rest)
             = generate_episode_loop gw pol1 1 ''U'' (ep @ [(1, ''U'', - 1)])
                 (concat (replicate n [0, 0, 0]) @ rest)"
    by auto
  from p1 Suc.IH[where pol = pol1 and pr = pr1 and ep = "ep @ [(1, ''U'', - 1)]"]
  obtain pol' pr' where
    p': "pol' 1 = Some ([''U'', ''D'', ''L'', ''R''], pr')" "length pr' = 4"
      "\<forall>p\<in>set pr'. 0 < p" "sum_list pr' = 1"
    and rec: "generate_episode_loop gw pol1 1 ''U'' (ep @ [(1, ''U'', - 1)])
                (concat (replicate n [0, 0, 0]) @ rest)
              = generate_episode_loop gw pol' 1 ''U''
                  ((ep @ [(1, ''U'', - 1)]) @ replicate n (1, ''U'', - 1)) rest"
    by blast
  have "generate_episode_loop gw pol 1 ''U'' ep (concat (replicate (Suc n) [0, 0, 0]) @ rest)
          = generate_episode_loop gw pol' 1 ''U'' (ep @ replicate (Suc n) (1, ''U'', - 1)) rest"
    using st rec by simp
  with p' show ?case by blast
qed

lemma gw_long_episode:
  "\<exists>ep pol'. generate_episode gw 1 ''U'' (generate_random_policy gw)
                 (concat (replicate n [0, 0, 0]) @ [0, 0, 2, 0, 0, 0])
               = Inr (Some ep, pol', [])
             \<and> length ep = n + 2"
proof -
  have p0: "generate_random_policy gw 1 = Some ([''U'', ''D'', ''L'', ''R''], [1/4, 1/4, 1/4, 1/4])"
    "length [1/4, 1/4, 1/4, 1/4 :: real] = 4" "\<forall>p\<in>set [1/4, 1/4, 1/4, 1/4 :: real]. 0 < p"
    "sum_list [1/4, 1/4, 1/4, 1/4 :: real] = 1"
    by (simp_all add: random_policy_at_1)
  from p0 gw_stay[where pol = "generate_random_policy gw" and pr = "[1/4, 1/4, 1/4, 1/4]"
      and ep = "[(1, ''U'', - 1)]" and n = n and rest = "[0, 0, 2, 0, 0, 0]"]
  obtain pol1 pr1 where
    p1: "pol1 1 = Some ([''U'', ''D'', ''L'', ''R''], pr1)" "length pr1 = 4"
      "\<forall>p\<in>set pr1. 0 < p" "sum_list pr1 = 1"
    and e1: "generate_episode_loop gw (generate_random_policy gw) 1 ''U'' [(1, ''U'', - 1)]
               (concat (replicate n [0, 0, 0]) @ [0, 0, 2, 0, 0, 0])
             = generate_episode_loop gw pol1 1 ''U''
                 ([(1, ''U'', - 1)] @ replicate n (1, ''U'', - 1)) [0, 0, 2, 0, 0, 0]"
    by blast
  from p1 gw_round_up[where pol = pol1 and pr = pr1 and ?d3.0 = 2
      and ep = "[(1, ''U'', - 1)] @ replicate n (1, ''U'', - 1)"
      and ?d1.0 = 0 and ?d2.0 = 0 and ds = "[0, 0, 0]"]
  obtain pol2 pr2 where
    p2: "pol2 1 = Some ([''U'', ''D'', ''L'', ''R''], pr2)" "length pr2 = 4"
      "\<forall>p\<in>set pr2. 0 < p" "sum_list pr2 = 1"
    and e2: "generate_episode_loop gw pol1 1 ''U''
               ([(1, ''U'', - 1)] @ replicate n (1, ''U'', - 1)) [0, 0, 2, 0, 0, 0]
             = generate_episode_loop gw pol2 1 ''L''
                 (([(1, ''U'', - 1)] @ replicate n (1, ''U'', - 1)) @ [(1, ''L'', - 1)]) [0, 0, 0]"
    by auto
  from p2 gw_round_left[where pol = pol2 and pr = pr2
      and ep = "([(1, ''U'', - 1)] @ replicate n (1, ''U'', - 1)) @ [(1, ''L'', - 1)]"
      and ?d1.0 = 0 and ?d2.0 = 0 and ds = "[]"]
  obtain pol3 where
    e3: "generate_episode_loop gw pol2 1 ''L''
           (([(1, ''U'', - 1)] @ replicate n (1, ''U'', - 1)) @ [(1, ''L'', - 1)]) [0, 0, 0]
         = Inr ((([(1, ''U'', - 1)] @ replicate n (1, ''U'', - 1)) @ [(1, ''L'', - 1)])
                  @ [(0, ''U'', - 1)], pol3, [])"
    by blast
  have "generate_episode gw 1 ''U'' (generate_random_policy gw)
                 (concat (replicate n [0, 0, 0]) @ [0, 0, 2, 0, 0, 0])
        = Inr (Some (([(1, ''U'', - 1)] @ replicate n (1, ''U'', - 1)) @ [(1, ''L'', - 1)]), pol3, [])"
    unfolding generate_episode_def e1 e2 e3 by (simp add: butlast_append)
  then show ?thesis by auto
qed

lemma generate_episode_v1_bound:
  "(generate_episode_v1 env s0 a0 pol ds = Inr (r, pol', ds') \<longrightarrow>
      pol' = pol \<and> length ds' \<le> length ds \<and> length ds - length ds' \<le> 50
      \<and> (case r of
            Some ep \<Rightarrow> length ep \<le> 50 \<and> length ep = Suc (length ds - length ds')
                        \<and> fst (last ep) = 0
          | None \<Rightarrow> length ds - length ds' = 50))
   \<and> (50 \<le> length ds \<longrightarrow> generate_episode_v1 env s0 a0 pol ds \<noteq> Inl OutOfDraws)"
proof (intro conjI impI)
  assume g: "generate_episode_v1 env s0 a0 pol ds = Inr (r, pol', ds')"
  then obtain ep where loop: "generate_episode_v1_loop env pol s0 a0 [(s0, a0, - 1)] ds = Inr (ep, ds')"
    and r: "r = (if 50 < length ep then None else Some ep)" and p: "pol' = pol"
    by (auto simp: generate_episode_v1_def split: sum.splits if_splits)
  from v1_loop_result[OF loop] have
    res: "length ep \<le> 51" "length ep + length ds' = 1 + length ds"
      "length ep \<le> 50 \<longrightarrow> fst (last ep) = 0" "1 < length ep" by simp_all
  show "pol' = pol" by (rule p)
  show "length ds' \<le> length ds" using res by simp
  show "length ds - length ds' \<le> 50" using res by simp
  show "case r of
          Some ep \<Rightarrow> length ep \<le> 50 \<and> length ep = Suc (length ds - length ds') \<and> fst (last ep) = 0
        | None \<Rightarrow> length ds - length ds' = 50"
    using res r by (auto split: if_splits)
next
  assume "50 \<le> length ds"
  then have "generate_episode_v1_loop env pol s0 a0 [(s0, a0, - 1)] ds \<noteq> Inl OutOfDraws"
    by (intro v1_loop_enough_draws) simp_all
  then show "generate_episode_v1 env s0 a0 pol ds \<noteq> Inl OutOfDraws"
    by (auto simp: generate_episode_v1_def split: sum.splits)
qed

text \<open>
  Claim C3, as amended. The bound belongs to the first definition of
  \<^verbatim>\<open>generate_episode\<close> only, which the second definition shadows. The first definition
  makes at most 50 rounds (with 50 draws at hand it never runs out of draws); an episode
  it returns has at most 50 entries, one more than the rounds made, and ends in the
  terminal state 0; it returns \<^verbatim>\<open>None\<close> exactly after 50 rounds, when the episode has
  51 entries; it leaves the policy as it was. The second definition, the one in force,
  has no bound and never returns \<^verbatim>\<open>None\<close>: the episode it returns starts with
  \<open>(s0, a0, -1)\<close>, follows the transitions of the environment through states that are
  not terminal, and stops only where the next transition leads to the terminal state,
  with three draws used for every entry, however many entries that makes; and on \<open>gw\<close>,
  for every number \<open>n\<close>, some outcome of the draws makes it return an episode of
  \<open>n + 2\<close> entries.
\<close>

theorem generate_episode_step_bound:
  "(generate_episode_v1 env s0 a0 pol ds = Inr (r, pol', ds') \<longrightarrow>
      pol' = pol \<and> length ds' \<le> length ds \<and> length ds - length ds' \<le> 50
      \<and> (case r of
            Some ep \<Rightarrow> length ep \<le> 50 \<and> length ep = Suc (length ds - length ds')
                        \<and> fst (last ep) = 0
          | None \<Rightarrow> length ds - length ds' = 50))
   \<and> (50 \<le> length ds \<longrightarrow> generate_episode_v1 env s0 a0 pol ds \<noteq> Inl OutOfDraws)
   \<and> generate_episode env s0 a0 pol ds \<noteq> Inr (None, pol', ds')
   \<and> (generate_episode env s0 a0 pol ds = Inr (Some ep, pol', ds') \<longrightarrow>
        (\<exists>rest. ep = (s0, a0, - 1) # rest \<and> follows env s0 a0 rest)
        \<and> length ds = 3 * length ep + length ds')
   \<and> (\<forall>n. \<exists>ds ep pol'.
          generate_episode gw 1 ''U'' (generate_random_policy gw) ds = Inr (Some ep, pol', [])
          \<and> length ep = n + 2)"
proof -
  note v1 = generate_episode_v1_bound[of env s0 a0 pol ds r pol' ds']
  have never_none: "generate_episode env s0 a0 pol ds \<noteq> Inr (None, pol', ds')"
    by (auto simp: generate_episode_def split: sum.splits)
  have trajectory: "generate_episode env s0 a0 pol ds = Inr (Some ep, pol', ds') \<longrightarrow>
        (\<exists>rest. ep = (s0, a0, - 1) # rest \<and> follows env s0 a0 rest)
        \<and> length ds = 3 * length ep + length ds'"
    using generate_episode_trajectory by blast
  have unbounded: "\<forall>n. \<exists>ds ep pol'.
          generate_episode gw 1 ''U'' (generate_random_policy gw) ds = Inr (Some ep, pol', [])
          \<and> length ep = n + 2"
    using gw_long_episode by blast
  from v1 show ?thesis
    by (intro conjI) (blast, blast, rule never_none, rule trajectory, rule unbounded)
qed

text \<open>The second definition returns an episode of 51 entries on \<open>gw\<close>, where the first
  definition would return \<^verbatim>\<open>None\<close>.\<close>

theorem generate_episode_step_bound_counterexample:
  "\<exists>ep pol'. generate_episode gw 1 ''U'' (generate_random_policy gw) long_draws
       = Inr (Some ep, pol', [])
     \<and> length ep = 51"
  by (simp add: generate_episode_def long_draws_def gw_transition grid_move_def random_policy_at_1 random_defs)

theorem generate_episode_step_bound_witness:
  "generate_episode_v1 gw 1 ''U'' (generate_random_policy gw) overrun_draws
     = Inr (None, generate_random_policy gw, [])
   \<and> length overrun_draws - length ([] :: nat list) = 50
   \<and> generate_episode_v1 gw 1 ''U'' (generate_random_policy gw) overrun_draws \<noteq> Inl OutOfDraws
   \<and> generate_episode_v1 gw 1 ''L'' (generate_random_policy gw) [0]
       = Inr (Some [(1, ''L'', - 1), (0, ''U'', - 1)], generate_random_policy gw, [])
   \<and> (\<exists>pol'. generate_episode gw 1 ''U'' (generate_random_policy gw) cumulative_draws
          = Inr (Some [(1, ''U'', - 1), (1, ''U'', - 1), (1, ''L'', - 1)], pol', []))
   \<and> follows gw 1 ''U'' [(1, ''U'', - 1), (1, ''L'', - 1)]
   \<and> length cumulative_draws = 3 * length [(1, ''U'', - 1 :: real), (1, ''U'', - 1), (1, ''L'', - 1)]"
proof -
  have v1: "generate_episode_v1 gw 1 ''U'' (generate_random_policy gw) overrun_draws
     = Inr (None, generate_random_policy gw, [])
   \<and> length overrun_draws - length ([] :: nat list) = 50
   \<and> generate_episode_v1 gw 1 ''U'' (generate_random_policy gw) overrun_draws \<noteq> Inl OutOfDraws
   \<and> generate_episode_v1 gw 1 ''L'' (generate_random_policy gw) [0]
       = Inr (Some [(1, ''L'', - 1), (0, ''U'', - 1)], generate_random_policy gw, [])"
    using generate_episode_step_bound[where env = gw and ?s0.0 = 1 and ?a0.0 = "''U''"
        and pol = "generate_random_policy gw" and ds = overrun_draws and r = None
        and pol' = "generate_random_policy gw" and ds' = "[]"] v1_overrun
    by (simp add: overrun_draws_def generate_episode_v1_def gw_transition grid_move_def
        random_policy_at_1 choice_p_def atol_def Let_def)
  have "\<exists>pol'. generate_episode gw 1 ''U'' (generate_random_policy gw) cumulative_draws
          = Inr (Some [(1, ''U'', - 1), (1, ''U'', - 1), (1, ''L'', - 1)], pol', [])"
    by (simp add: generate_episode_def cumulative_draws_def gw_transition grid_move_def
        random_policy_at_1 random_defs)
  then obtain pol' where
    g: "generate_episode gw 1 ''U'' (generate_random_policy gw) cumulative_draws
          = Inr (Some [(1, ''U'', - 1), (1, ''U'', - 1), (1, ''L'', - 1)], pol', [])" by blast
  from g generate_episode_step_bound[where env = gw and ?s0.0 = 1 and ?a0.0 = "''U''"
        and pol = "generate_random_policy gw" and ds = cumulative_draws
        and ep = "[(1, ''U'', - 1), (1, ''U'', - 1), (1, ''L'', - 1)]"
        and pol' = pol' and ds' = "[]"]
  have "follows gw 1 ''U'' [(1, ''U'', - 1), (1, ''L'', - 1)]"
    and "length cumulative_draws
           = 3 * length [(1, ''U'', - 1 :: real), (1, ''U'', - 1), (1, ''L'', - 1)]"
    by simp_all
  with v1 g show ?thesis by blast
qed

subsection \<open>A failed episode inside the control loop\<close>

lemma any_quartiles: "generate_any_policy gw quartiles = generate_random_policy gw"
  by (simp add: generate_any_policy_def generate_random_policy_def gw_sel quartiles_def
      any_prob_def)

text \<open>
  Claim C4, as amended. \<^verbatim>\<open>monte_carlo_es\<close> has no check for a failed episode: when the
  generator returns \<^verbatim>\<open>None\<close>, the loop \<^verbatim>\<open>for s, a, r in episode\<close> raises
  \<^verbatim>\<open>TypeError\<close> and the call ends there, whatever the number of iterations still to
  run. With the \<^verbatim>\<open>generate_episode\<close> in force this does not happen, as it never
  returns \<^verbatim>\<open>None\<close>.
\<close>

theorem monte_carlo_es_raises_on_None:
  "(choice (states env) d1 = Inr s0 \<longrightarrow> choice (actions env) d2 = Inr a0 \<longrightarrow>
      gen env s0 a0 pol ds = Inr (None, pol', ds') \<longrightarrow>
      monte_carlo_es_loop gen env (Suc n) (Q, pol, returns) (d1 # d2 # ds) = Inl TypeError)
   \<and> generate_episode env s0 a0 pol ds \<noteq> Inr (None, pol', ds')"
  by (auto simp: generate_episode_def split: sum.splits)

text \<open>With the first \<^verbatim>\<open>generate_episode\<close>, an episode that passes the bound makes
  \<^verbatim>\<open>monte_carlo_es\<close> raise instead of skipping the iteration.\<close>

theorem monte_carlo_es_raises_on_None_counterexample:
  "monte_carlo_es_with generate_episode_v1 gw 1 quartiles es_overrun_draws = Inl TypeError"
  by (simp add: monte_carlo_es_with_def es_overrun_draws_def any_quartiles gw_sel choice_def
      v1_overrun)

theorem monte_carlo_es_raises_on_None_witness:
  "monte_carlo_es_loop generate_episode_v1 gw (Suc 0)
      (state_action_value gw, generate_random_policy gw, empty_returns gw)
      (0 # 0 # overrun_draws) = Inl TypeError"
proof -
  have s0: "choice (states gw) 0 = Inr 1" and a0: "choice (actions gw) 0 = Inr ''U''"
    by (simp_all add: choice_def gw_sel)
  from monte_carlo_es_raises_on_None[of gw 0 1 0 "''U''" generate_episode_v1
      "generate_random_policy gw" overrun_draws "generate_random_policy gw" "[]"]
    s0 a0 v1_overrun
  show ?thesis by blast
qed

subsection \<open>Episode generation changes the policy of the caller\<close>

lemma generate_episode_loop_policy:
  assumes "generate_episode_loop env pol cs a ep ds = Inr (ep', pol', ds')"
  shows "\<exists>tl. ep' = ep @ tl \<and> tl \<noteq> []
           \<and> perturb_states pol (cs # map fst (butlast tl)) ds = Inr pol'"
  using assms
proof (induction env pol cs a ep ds rule: generate_episode_loop.induct)
  case (1 env pol cs a ep d1 d2 d3 ds)
  obtain next_state reward where tr: "state_transition env cs a = (next_state, reward)"
    by (cases "state_transition env cs a") auto
  from "1.prems" tr obtain acts pr where pol: "pol cs = Some (acts, pr)"
    by (auto split: option.splits)
  from "1.prems" tr pol obtain pr' where pt: "perturb pr d1 d2 = Inr pr'"
    by (auto split: sum.splits)
  from "1.prems" tr pol pt obtain a' where ch: "choice_p acts pr' d3 = Inr a'"
    by (auto split: sum.splits)
  define pol2 where "pol2 = pol(cs \<mapsto> (acts, pr'))"
  define ep2 where "ep2 = ep @ [(next_state, a', reward)]"
  show ?case
  proof (cases "next_state = 0")
    case True
    with "1.prems" tr pol pt ch have "ep' = ep2" "pol' = pol2"
      by (simp_all add: ep2_def pol2_def Let_def)
    then show ?thesis using pol pt by (auto simp: ep2_def pol2_def fun_eq_iff)
  next
    case False
    with "1.prems" tr pol pt ch
    have rec: "generate_episode_loop env pol2 next_state a' ep2 ds = Inr (ep', pol', ds')"
      by (simp add: ep2_def pol2_def Let_def)
    have "\<exists>tl. ep' = ep2 @ tl \<and> tl \<noteq> []
           \<and> perturb_states pol2 (next_state # map fst (butlast tl)) ds = Inr pol'"
      using "1.IH"[OF tr[symmetric] pol refl pt ch pol2_def ep2_def False rec] .
    then obtain tl where tl: "ep' = ep2 @ tl" "tl \<noteq> []"
      "perturb_states pol2 (next_state # map fst (butlast tl)) ds = Inr pol'" by blast
    have "ep' = ep @ ((next_state, a', reward) # tl)" using tl by (simp add: ep2_def)
    moreover have "perturb_states pol (cs # map fst (butlast ((next_state, a', reward) # tl)))
                     (d1 # d2 # d3 # ds) = Inr pol'"
      using tl pol pt by (simp add: pol2_def)
    ultimately show ?thesis by blast
  qed
qed simp_all

lemma perturb_states_frame:
  assumes "perturb_states pol ss ds = Inr pol'" "s \<notin> set ss"
  shows "pol' s = pol s"
  using assms
proof (induction pol ss ds rule: perturb_states.induct)
  case (2 pol x ss d1 d2 d3 ds)
  from "2.prems"(1) obtain acts pr pr' where
    p: "pol x = Some (acts, pr)" "perturb pr d1 d2 = Inr pr'"
    and rec: "perturb_states (pol(x \<mapsto> (acts, pr'))) ss ds = Inr pol'"
    by (auto split: option.splits sum.splits)
  from "2.IH"[OF p(1) refl p(2) rec] "2.prems"(2) show ?case by simp
qed simp_all

text \<open>
  Claim C9. \<^verbatim>\<open>generate_episode\<close> writes the perturbed probabilities into the policy it
  was given: the policy after the call is the policy before the call with the
  perturbation applied at every state of the returned episode, in the order of the
  episode and one after the other, so a state that occurs several times is perturbed
  that many times, each time starting from the result of the time before. The entries
  of the states that do not occur in the episode are as before. The witness exhibits a
  call after which the vector of a state differs from the one before the call.
\<close>

theorem generate_episode_changes_policy:
  assumes "generate_episode env s0 a0 pol ds = Inr (Some ep, pol', ds')"
  shows "perturb_states pol (map fst ep) ds = Inr pol' \<and> (\<forall>s. s \<notin> set (map fst ep) \<longrightarrow> pol' s = pol s)"
proof -
  from assms obtain ep' where
    loop: "generate_episode_loop env pol s0 a0 [(s0, a0, - 1)] ds = Inr (ep', pol', ds')"
    and ep: "ep = butlast ep'"
    by (auto simp: generate_episode_def split: sum.splits)
  from generate_episode_loop_policy[OF loop] obtain tl where
    tl: "ep' = [(s0, a0, - 1)] @ tl" "tl \<noteq> []"
    "perturb_states pol (s0 # map fst (butlast tl)) ds = Inr pol'" by blast
  from tl ep have "map fst ep = s0 # map fst (butlast tl)" by (simp add: butlast_append)
  with tl have p: "perturb_states pol (map fst ep) ds = Inr pol'" by simp
  with perturb_states_frame[OF p] show ?thesis by blast
qed

theorem generate_episode_changes_policy_witness:
  "\<exists>pol'. generate_episode gw 1 ''U'' (generate_random_policy gw) cumulative_draws
        = Inr (Some [(1, ''U'', - 1), (1, ''U'', - 1), (1, ''L'', - 1)], pol', [])
     \<and> perturb_states (generate_random_policy gw) [1, 1, 1] cumulative_draws = Inr pol'
     \<and> generate_random_policy gw 1 = Some ([''U'', ''D'', ''L'', ''R''], [0.25, 0.25, 0.25, 0.25])
     \<and> perturb [0.25, 0.25, 0.25, 0.25] 1 2 = Inr [0.05, 0.25, 0.35, 0.35]
     \<and> pol' 1 = Some ([''U'', ''D'', ''L'', ''R''], [0.05, 0.35, 0.25, 0.35])
     \<and> pol' 2 = generate_random_policy gw 2"
proof -
  have "\<exists>pol'. generate_episode gw 1 ''U'' (generate_random_policy gw) cumulative_draws
        = Inr (Some [(1, ''U'', - 1), (1, ''U'', - 1), (1, ''L'', - 1)], pol', [])
     \<and> pol' 1 = Some ([''U'', ''D'', ''L'', ''R''], [0.05, 0.35, 0.25, 0.35])"
    by (simp add: generate_episode_def cumulative_draws_def gw_transition grid_move_def
        random_policy_at_1 random_defs)
  then obtain pol' where
    g: "generate_episode gw 1 ''U'' (generate_random_policy gw) cumulative_draws
        = Inr (Some [(1, ''U'', - 1), (1, ''U'', - 1), (1, ''L'', - 1)], pol', [])"
    and p1: "pol' 1 = Some ([''U'', ''D'', ''L'', ''R''], [0.05, 0.35, 0.25, 0.35])" by blast
  from generate_episode_changes_policy[OF g]
  have "perturb_states (generate_random_policy gw) [1, 1, 1] cumulative_draws = Inr pol'"
    and "pol' 2 = generate_random_policy gw 2" by simp_all
  moreover have "perturb [0.25, 0.25, 0.25, 0.25] 1 2 = Inr [0.05, 0.25, 0.35, 0.35]"
    by (simp add: random_defs)
  moreover have "generate_random_policy gw 1
                   = Some ([''U'', ''D'', ''L'', ''R''], [0.25, 0.25, 0.25, 0.25])"
    by (simp add: random_policy_at_1)
  ultimately show ?thesis using g p1 by blast
qed

subsection \<open>The value-table entries of the terminal positions\<close>

lemma choice_mem: "choice xs d = Inr x \<Longrightarrow> x \<in> set xs"
  by (auto simp: choice_def split: if_splits)

lemma random_episode_loop_states:
  assumes closed: "\<forall>s\<in>set (states env). \<forall>a\<in>set (actions env).
                     fst (state_transition env s a) \<in> insert 0 (set (states env))"
    and "cs \<in> set (states env)"
    and "\<forall>x\<in>set ep. fst x \<in> insert 0 (set (states env))"
    and "generate_random_episode_loop env cs ep ds = Inr (ep', ds')"
  shows "\<forall>x\<in>set ep'. fst x \<in> insert 0 (set (states env))"
  using assms(2-)
proof (induction ds arbitrary: cs ep)
  case Nil
  then show ?case by simp
next
  case (Cons d ds)
  from Cons.prems(3) obtain action where ch: "choice (actions env) d = Inr action"
    by (auto split: sum.splits)
  obtain next_state reward where tr: "state_transition env cs action = (next_state, reward)"
    by (cases "state_transition env cs action") auto
  have "action \<in> set (actions env)" using ch by (rule choice_mem)
  with closed Cons.prems(1) tr have nx: "next_state \<in> insert 0 (set (states env))"
    by fastforce
  define ep2 where "ep2 = ep @ [(next_state, reward)]"
  have ep2: "\<forall>x\<in>set ep2. fst x \<in> insert 0 (set (states env))"
    using Cons.prems(2) nx by (auto simp: ep2_def)
  show ?case
  proof (cases "next_state = 0")
    case True
    with Cons.prems(3) ch tr have "ep' = ep2" by (simp add: ep2_def Let_def)
    with ep2 show ?thesis by simp
  next
    case False
    with Cons.prems(3) ch tr
    have rec: "generate_random_episode_loop env next_state ep2 ds = Inr (ep', ds')"
      by (simp add: ep2_def Let_def)
    from False nx have "next_state \<in> set (states env)" by simp
    from Cons.IH[OF this ep2 rec] show ?thesis .
  qed
qed

lemma random_episode_states:
  assumes closed: "\<forall>s\<in>set (states env). \<forall>a\<in>set (actions env).
                     fst (state_transition env s a) \<in> insert 0 (set (states env))"
    and "generate_random_episode env ds = Inr (ep, ds')"
  shows "\<forall>x\<in>set ep. fst x \<in> insert 0 (set (states env))"
proof -
  from assms(2) obtain d rest cs where ds: "ds = d # rest"
    and ch: "choice (states env) d = Inr cs"
    and loop: "generate_random_episode_loop env cs [(cs, - 1)] rest = Inr (ep, ds')"
    by (auto simp: generate_random_episode_def split: list.splits sum.splits)
  have cs: "cs \<in> set (states env)" using ch by (rule choice_mem)
  show ?thesis
    by (rule random_episode_loop_states[OF closed cs _ loop]) (use cs in simp)
qed

lemma np_set_keeps:
  assumes "np_set xs s v = Inr xs'" "0 < s" "s \<le> int L" "length xs = L + 2"
  shows "length xs' = L + 2 \<and> xs' ! 0 = xs ! 0 \<and> xs' ! (L + 1) = xs ! (L + 1)"
proof -
  from assms have "xs' = xs[nat s := v]" by (auto simp: np_set_def Let_def split: if_splits)
  moreover have "nat s \<noteq> 0" "nat s \<noteq> L + 1" using assms(2,3) by auto
  ultimately show ?thesis using assms(4) by simp
qed

lemma first_visit_keeps:
  assumes "first_visit g ep (s, r) ((values, returns), vis) = Inr ((values', returns'), vis')"
    and "0 \<in> vis" and "s = 0 \<or> (0 < s \<and> s \<le> int L)"
    and "length values = L + 2 \<and> values ! 0 = 0 \<and> values ! (L + 1) = 0"
  shows "(length values' = L + 2 \<and> values' ! 0 = 0 \<and> values' ! (L + 1) = 0) \<and> 0 \<in> vis'"
proof (cases "s \<in> vis")
  case True
  with assms show ?thesis by simp
next
  case False
  with assms(2,3) have s: "0 < s" "s \<le> int L" by auto
  from False assms(1) obtain v where "np_set values s v = Inr values'" and "vis' = insert s vis"
    by (auto simp: Let_def split: sum.splits option.splits)
  with np_set_keeps[OF _ s] assms(2,4) show ?thesis by auto
qed

lemma first_visit_episode_keeps:
  assumes "first_visit_episode g ep xs ((values, returns), vis) = Inr ((values', returns'), vis')"
    and "0 \<in> vis" and "\<forall>x\<in>set xs. fst x = 0 \<or> (0 < fst x \<and> fst x \<le> int L)"
    and "length values = L + 2 \<and> values ! 0 = 0 \<and> values ! (L + 1) = 0"
  shows "length values' = L + 2 \<and> values' ! 0 = 0 \<and> values' ! (L + 1) = 0"
  using assms
proof (induction xs arbitrary: "values" returns vis)
  case Nil
  then show ?case by simp
next
  case (Cons x xs)
  obtain s r where x: "x = (s, r)" by (cases x) auto
  from Cons.prems(1) x obtain values2 returns2 vis2 where
    st: "first_visit g ep (s, r) ((values, returns), vis) = Inr ((values2, returns2), vis2)"
    and rec: "first_visit_episode g ep xs ((values2, returns2), vis2) = Inr ((values', returns'), vis')"
    by (auto split: sum.splits simp del: first_visit.simps)
  have "s = 0 \<or> (0 < s \<and> s \<le> int L)" using Cons.prems(3) x by simp
  from first_visit_keeps[OF st Cons.prems(2) this Cons.prems(4)]
  have inv: "length values2 = L + 2 \<and> values2 ! 0 = 0 \<and> values2 ! (L + 1) = 0" and v: "0 \<in> vis2"
    by simp_all
  have "\<forall>x\<in>set xs. fst x = 0 \<or> (0 < fst x \<and> fst x \<le> int L)" using Cons.prems(3) by simp
  from Cons.IH[OF rec v this inv] show ?case .
qed

lemma every_visit_keeps:
  assumes "every_visit g ep (s, r) (values, returns) = Inr (values', returns')"
    and "s = 0 \<or> (0 < s \<and> s \<le> int L)"
    and "length values = L + 2 \<and> values ! 0 = 0 \<and> values ! (L + 1) = 0"
  shows "length values' = L + 2 \<and> values' ! 0 = 0 \<and> values' ! (L + 1) = 0"
proof (cases "s = 0")
  case True
  with assms show ?thesis by simp
next
  case False
  with assms(2) have s: "0 < s" "s \<le> int L" by auto
  from False assms(1) obtain v where "np_set values s v = Inr values'"
    by (auto simp: Let_def split: sum.splits option.splits)
  with np_set_keeps[OF _ s] assms(3) show ?thesis by auto
qed

lemma every_visit_episode_keeps:
  assumes "every_visit_episode g ep xs (values, returns) = Inr (values', returns')"
    and "\<forall>x\<in>set xs. fst x = 0 \<or> (0 < fst x \<and> fst x \<le> int L)"
    and "length values = L + 2 \<and> values ! 0 = 0 \<and> values ! (L + 1) = 0"
  shows "length values' = L + 2 \<and> values' ! 0 = 0 \<and> values' ! (L + 1) = 0"
  using assms
proof (induction xs arbitrary: "values" returns)
  case Nil
  then show ?case by simp
next
  case (Cons x xs)
  obtain s r where x: "x = (s, r)" by (cases x) auto
  from Cons.prems(1) x obtain values2 returns2 where
    st: "every_visit g ep (s, r) (values, returns) = Inr (values2, returns2)"
    and rec: "every_visit_episode g ep xs (values2, returns2) = Inr (values', returns')"
    by (auto split: sum.splits simp del: every_visit.simps)
  have "s = 0 \<or> (0 < s \<and> s \<le> int L)" using Cons.prems(2) x by simp
  from every_visit_keeps[OF st this Cons.prems(3)]
  have inv: "length values2 = L + 2 \<and> values2 ! 0 = 0 \<and> values2 ! (L + 1) = 0" .
  have "\<forall>x\<in>set xs. fst x = 0 \<or> (0 < fst x \<and> fst x \<le> int L)" using Cons.prems(2) by simp
  from Cons.IH[OF rec this inv] show ?case .
qed

lemma episode_states_in_range:
  assumes "\<forall>s\<in>set (states env). 0 \<le> s \<and> s \<le> int (length (states env))"
    and "\<forall>s\<in>set (states env). \<forall>a\<in>set (actions env).
            fst (state_transition env s a) \<in> insert 0 (set (states env))"
    and "generate_random_episode env ds = Inr (ep, ds')"
  shows "\<forall>x\<in>set ep. fst x = 0 \<or> (0 < fst x \<and> fst x \<le> int (length (states env)))"
  using random_episode_states[OF assms(2,3)] assms(1) by fastforce

lemma first_visit_loop_keeps:
  assumes "\<forall>s\<in>set (states env). 0 \<le> s \<and> s \<le> int (length (states env))"
    and "\<forall>s\<in>set (states env). \<forall>a\<in>set (actions env).
            fst (state_transition env s a) \<in> insert 0 (set (states env))"
    and "first_visit_loop env n (values, returns) ds = Inr ((values', returns'), ds')"
    and "length values = length (states env) + 2 \<and> values ! 0 = 0
           \<and> values ! (length (states env) + 1) = 0"
  shows "length values' = length (states env) + 2 \<and> values' ! 0 = 0
           \<and> values' ! (length (states env) + 1) = 0"
  using assms(3,4)
proof (induction n arbitrary: "values" returns ds)
  case 0
  then show ?case by simp
next
  case (Suc n)
  from Suc.prems(1) obtain ep ds2 values2 returns2 vis2 where
    ep: "generate_random_episode env ds = Inr (ep, ds2)"
    and upd: "first_visit_episode (gamma env) ep ep ((values, returns), {0})
                = Inr ((values2, returns2), vis2)"
    and rec: "first_visit_loop env n (values2, returns2) ds2 = Inr ((values', returns'), ds')"
    by (auto split: sum.splits)
  note rng = episode_states_in_range[OF assms(1,2) ep]
  have "length values2 = length (states env) + 2 \<and> values2 ! 0 = 0
          \<and> values2 ! (length (states env) + 1) = 0"
    by (rule first_visit_episode_keeps[OF upd _ rng Suc.prems(2)]) simp
  from Suc.IH[OF rec this] show ?case .
qed

lemma every_visit_loop_keeps:
  assumes "\<forall>s\<in>set (states env). 0 \<le> s \<and> s \<le> int (length (states env))"
    and "\<forall>s\<in>set (states env). \<forall>a\<in>set (actions env).
            fst (state_transition env s a) \<in> insert 0 (set (states env))"
    and "every_visit_loop env n (values, returns) ds = Inr ((values', returns'), ds')"
    and "length values = length (states env) + 2 \<and> values ! 0 = 0
           \<and> values ! (length (states env) + 1) = 0"
  shows "length values' = length (states env) + 2 \<and> values' ! 0 = 0
           \<and> values' ! (length (states env) + 1) = 0"
  using assms(3,4)
proof (induction n arbitrary: "values" returns ds)
  case 0
  then show ?case by simp
next
  case (Suc n)
  from Suc.prems(1) obtain ep ds2 values2 returns2 where
    ep: "generate_random_episode env ds = Inr (ep, ds2)"
    and upd: "every_visit_episode (gamma env) ep ep (values, returns) = Inr (values2, returns2)"
    and rec: "every_visit_loop env n (values2, returns2) ds2 = Inr ((values', returns'), ds')"
    by (auto split: sum.splits)
  note rng = episode_states_in_range[OF assms(1,2) ep]
  have "length values2 = length (states env) + 2 \<and> values2 ! 0 = 0
          \<and> values2 ! (length (states env) + 1) = 0"
    by (rule every_visit_episode_keeps[OF upd rng Suc.prems(2)])
  from Suc.IH[OF rec this] show ?case .
qed

lemma value_array_zero:
  "length (value_array env) = length (states env) + 2 \<and> value_array env ! 0 = 0
     \<and> value_array env ! (length (states env) + 1) = 0"
  by (simp add: value_array_def nth_Cons')

text \<open>
  Claim C7. Let the states of the environment be numbers from 0 to the number of states
  (so that none of them is the last index of the value table or a negative index), and
  let every transition from a state of the environment lead to the terminal state 0 or
  to a state of the environment. Then, after any number of iterations, the value table
  that \<^verbatim>\<open>first_visit_mc\<close> returns, and the one that \<^verbatim>\<open>every_visit_mc\<close> returns, has
  two more entries than there are states, and its entries at index 0 and at the last
  index are 0.
\<close>

theorem terminal_values_stay_zero:
  assumes "\<forall>s\<in>set (states env). 0 \<le> s \<and> s \<le> int (length (states env))"
    and "\<forall>s\<in>set (states env). \<forall>a\<in>set (actions env).
            fst (state_transition env s a) \<in> insert 0 (set (states env))"
  shows "(first_visit_mc env n ds = Inr ((values, returns), ds') \<longrightarrow>
            length values = length (states env) + 2 \<and> values ! 0 = 0
            \<and> values ! (length (states env) + 1) = 0)
       \<and> (every_visit_mc env n ds = Inr ((values, returns), ds') \<longrightarrow>
            length values = length (states env) + 2 \<and> values ! 0 = 0
            \<and> values ! (length (states env) + 1) = 0)"
  using first_visit_loop_keeps[OF assms _ value_array_zero]
    every_visit_loop_keeps[OF assms _ value_array_zero]
  unfolding first_visit_mc_def every_visit_mc_def by blast

theorem terminal_values_stay_zero_witness:
  "\<exists>values returns values' returns'.
     first_visit_mc gw 1 notebook_draws = Inr ((values, returns), [])
     \<and> length values = 16 \<and> values ! 0 = 0 \<and> values ! 15 = 0 \<and> values ! 14 = - 0.9
     \<and> every_visit_mc gw 1 notebook_draws = Inr ((values', returns'), [])
     \<and> length values' = 16 \<and> values' ! 0 = 0 \<and> values' ! 15 = 0 \<and> values' ! 14 = - 0.9"
proof -
  have len: "length (states gw) = 14" by (simp add: gw_sel)
  have h1: "\<forall>s\<in>set (states gw). 0 \<le> s \<and> s \<le> int (length (states gw))"
    by (simp add: gw_sel)
  have h2: "\<forall>s\<in>set (states gw). \<forall>a\<in>set (actions gw).
              fst (state_transition gw s a) \<in> insert 0 (set (states gw))"
    by (simp add: gw_sel gw_transition grid_move_def)
  have "\<exists>vals returns. first_visit_mc gw 1 notebook_draws = Inr ((vals, returns), [])
          \<and> vals ! 14 = - 0.9"
    by (simp add: first_visit_mc_def notebook_episode_generated)
       (simp add: gw_sel notebook_episode_def value_array_def empty_state_returns_def
         return_loop_foldl np_set_def mean_def Let_def)
  then obtain vals returns where
    fv: "first_visit_mc gw 1 notebook_draws = Inr ((vals, returns), [])"
    and v14: "vals ! 14 = - 0.9" by blast
  have "\<exists>vals returns. every_visit_mc gw 1 notebook_draws = Inr ((vals, returns), [])
          \<and> vals ! 14 = - 0.9"
    by (simp add: every_visit_mc_def notebook_episode_generated)
       (simp add: gw_sel notebook_episode_def value_array_def empty_state_returns_def
         return_loop_foldl np_set_def mean_def Let_def)
  then obtain vals' returns' where
    ev: "every_visit_mc gw 1 notebook_draws = Inr ((vals', returns'), [])"
    and v14': "vals' ! 14 = - 0.9" by blast
  from terminal_values_stay_zero[OF h1 h2, of 1 notebook_draws vals returns "[]"] fv
  have a: "length vals = 16 \<and> vals ! 0 = 0 \<and> vals ! 15 = 0" by (simp add: len)
  from terminal_values_stay_zero[OF h1 h2, of 1 notebook_draws vals' returns' "[]"] ev
  have b: "length vals' = 16 \<and> vals' ! 0 = 0 \<and> vals' ! 15 = 0" by (simp add: len)
  from a b fv ev v14 v14' show ?thesis by blast
qed

end
